theory Spec2Isabelle
  imports Complex_Main "HOL-Library.Multiset" "HOL-Library.Char_ord" "HOL-Library.List_Lexorder"
begin

section \<open>The read planner of MergeTree: data model\<close>

text \<open>
  The development embeds \<^verbatim>\<open>MergeTreeDataSelectExecutor.cpp\<close>: the index pruner
  \<^verbatim>\<open>markRangesFromPkRange\<close>, the two thread spreaders and the entry point \<^verbatim>\<open>read\<close>.

  Conventions of the embedding.
  \<^item> \<^verbatim>\<open>size_t\<close> is \<open>nat\<close>. Every subtraction of the source is \<open>size_sub\<close>, which wraps
    around \<open>2 ^ 64\<close> when it would go below zero, as the machine does. A sum with a
    setting, which may hold any value of \<^verbatim>\<open>size_t\<close>, is \<open>size_add\<close>, which wraps as well.
    Sums and products of numbers of marks are not reduced: they are exact as long as they
    stay below \<open>2 ^ 64\<close>, which they do for every index that fits in memory.
  \<^item> \<^verbatim>\<open>double\<close> is \<open>real\<close>, every operation rounded to binary64; see the section on the
    sample size.
  \<^item> A \<^verbatim>\<open>std::vector\<close> that the source uses as a stack (\<^verbatim>\<open>back\<close>, \<^verbatim>\<open>pop_back\<close>,
    \<^verbatim>\<open>push_back\<close>) is a list whose head is \<^verbatim>\<open>back()\<close>. A vector that is only appended to
    and read in order is a list in the vector's order.
  \<^item> The result of a function that may loop forever or trap (integer division by zero, a read
    past the end of the index) is an \<open>option\<close>: \<open>None\<close> means that the call yields nothing.
    A thrown \<^verbatim>\<open>Exception\<close> is \<open>Inl\<close> of its error code.
\<close>

definition size_sub :: "nat \<Rightarrow> nat \<Rightarrow> nat" where
  "size_sub a b = (if b \<le> a then a - b else 2 ^ 64 - (b - a) mod 2 ^ 64)"

definition size_add :: "nat \<Rightarrow> nat \<Rightarrow> nat" where
  "size_add a b = (a + b) mod 2 ^ 64"

datatype Field = Null | UInt64 nat | Int64 int | Float64 real | String string

datatype MarkRange = MarkRange (range_begin: nat) (range_end: nat)

type_synonym MarkRanges = "MarkRange list"

text \<open>
  \<^verbatim>\<open>PKCondition\<close> is an external collaborator. A key is handed over as a pointer into the
  flat index; here it is the list of the \<open>key_size\<close> fields found there.
\<close>

record PKCondition =
  alwaysTrue :: bool
  mayBeTrueInRange :: "Field list \<Rightarrow> Field list \<Rightarrow> bool"
  mayBeTrueAfter :: "Field list \<Rightarrow> bool"

record Settings =
  min_rows_for_seek :: nat
  min_rows_for_concurrent_read :: nat
  max_rows_to_use_cache :: nat
  coarse_index_granularity :: nat

section \<open>The index pruner\<close>

text \<open>
  \<^verbatim>\<open>&index[m * key_size]\<close>: the key of mark \<open>m\<close>. Reading past the end of the vector is
  undefined in the source; it is \<open>None\<close> here.
\<close>

definition index_key :: "nat \<Rightarrow> Field list \<Rightarrow> nat \<Rightarrow> Field list option" where
  "index_key key_size index m =
     (if (m + 1) * key_size \<le> length index
      then Some (take key_size (drop (m * key_size) index)) else None)"

text \<open>Lines 432-436: the probe of one suspicious range.\<close>

definition may_be_true ::
  "nat \<Rightarrow> Field list \<Rightarrow> PKCondition \<Rightarrow> nat \<Rightarrow> MarkRange \<Rightarrow> bool option" where
  "may_be_true key_size index key_condition marks_count rng =
     (if range_end rng = marks_count
      then (case index_key key_size index (range_begin rng) of
              None \<Rightarrow> None
            | Some left \<Rightarrow> Some (mayBeTrueAfter key_condition left))
      else (case index_key key_size index (range_begin rng) of
              None \<Rightarrow> None
            | Some left \<Rightarrow>
                (case index_key key_size index (range_end rng) of
                   None \<Rightarrow> None
                 | Some right \<Rightarrow> Some (mayBeTrueInRange key_condition left right))))"

text \<open>
  Lines 444-447: a single useful mark either starts a new output range or extends the last
  one. \<open>res\<close> is in the vector's order, \<open>last res\<close> is \<^verbatim>\<open>res.back()\<close>.
\<close>

definition add_mark :: "nat \<Rightarrow> MarkRanges \<Rightarrow> MarkRange \<Rightarrow> MarkRanges" where
  "add_mark min_marks_for_seek res rng =
     (if res = [] \<or> size_sub (range_begin rng) (range_end (last res)) > min_marks_for_seek
      then res @ [rng]
      else butlast res @ [MarkRange (range_begin (last res)) (range_end rng)])"

text \<open>
  Lines 455-458: the \<^verbatim>\<open>for\<close> loop that cuts a range into chunks of \<open>step\<close> marks from the
  right and pushes them, the leftmost chunk last. The stack's head is its top.
\<close>

partial_function (option) split_range ::
  "nat \<Rightarrow> nat \<Rightarrow> nat \<Rightarrow> MarkRanges \<Rightarrow> MarkRanges option" where
  "split_range begin_mark step end_mark ranges_stack =
     (if end_mark > begin_mark + step
      then split_range begin_mark step (size_sub end_mark step)
             (MarkRange (size_sub end_mark step) end_mark # ranges_stack)
      else Some (MarkRange begin_mark end_mark # ranges_stack))"

declare split_range.simps [code]

text \<open>Lines 427-460: the descent. Division by a zero granularity traps.\<close>

partial_function (option) pk_loop ::
  "nat \<Rightarrow> nat \<Rightarrow> nat \<Rightarrow> Field list \<Rightarrow> PKCondition \<Rightarrow> nat \<Rightarrow> MarkRanges \<Rightarrow> MarkRanges
     \<Rightarrow> MarkRanges option" where
  "pk_loop key_size granularity min_marks_for_seek index key_condition marks_count
       ranges_stack res =
     (case ranges_stack of
        [] \<Rightarrow> Some res
      | rng # rest \<Rightarrow>
          Option.bind (may_be_true key_size index key_condition marks_count rng)
            (\<lambda>may.
               if \<not> may
               then pk_loop key_size granularity min_marks_for_seek index key_condition
                      marks_count rest res
               else if range_end rng = range_begin rng + 1
               then pk_loop key_size granularity min_marks_for_seek index key_condition
                      marks_count rest (add_mark min_marks_for_seek res rng)
               else if granularity = 0 then None
               else
                 Option.bind
                   (split_range (range_begin rng)
                      (size_sub (size_sub (range_end rng) (range_begin rng)) 1
                         div granularity + 1)
                      (range_end rng) rest)
                   (\<lambda>ranges_stack'.
                      pk_loop key_size granularity min_marks_for_seek index key_condition
                        marks_count ranges_stack' res)))"

declare pk_loop.simps [code]

text \<open>
  Lines 406-464. \<open>key_size\<close> is \<^verbatim>\<open>data.getSortDescription().size()\<close>, \<open>granularity\<close> is
  \<^verbatim>\<open>data.settings.coarse_index_granularity\<close>.
\<close>

definition markRangesFromPkRange ::
  "nat \<Rightarrow> nat \<Rightarrow> nat \<Rightarrow> Field list \<Rightarrow> PKCondition \<Rightarrow> MarkRanges option" where
  "markRangesFromPkRange key_size granularity min_marks_for_seek index key_condition =
     (if key_size = 0 then None
      else
        let marks_count = length index div key_size in
        if alwaysTrue key_condition then Some [MarkRange 0 marks_count]
        else pk_loop key_size granularity min_marks_for_seek index key_condition marks_count
               [MarkRange 0 marks_count] [])"

section \<open>Predicates on lists of mark ranges\<close>

text \<open>
  \<open>tiling b e cs\<close>: the non-empty ranges \<open>cs\<close> follow each other without a gap from \<open>b\<close>
  to \<open>e\<close>. \<open>ordered_in lo hi rs\<close>: the non-empty ranges \<open>rs\<close> lie between \<open>lo\<close> and \<open>hi\<close>,
  from left to right, without overlap. \<open>separated m rs\<close>: the non-empty ranges \<open>rs\<close> go from
  left to right and the gap between two neighbours exceeds \<open>m\<close> marks.
\<close>

fun tiling :: "nat \<Rightarrow> nat \<Rightarrow> MarkRanges \<Rightarrow> bool" where
  "tiling b e [] = (b = e)"
| "tiling b e (r # rs) = (range_begin r = b \<and> b < range_end r \<and> tiling (range_end r) e rs)"

fun ordered_in :: "nat \<Rightarrow> nat \<Rightarrow> MarkRanges \<Rightarrow> bool" where
  "ordered_in lo hi [] = (lo \<le> hi)"
| "ordered_in lo hi (r # rs) =
     (lo \<le> range_begin r \<and> range_begin r < range_end r \<and> ordered_in (range_end r) hi rs)"

fun separated :: "nat \<Rightarrow> MarkRanges \<Rightarrow> bool" where
  "separated m [] = True"
| "separated m [r] = (range_begin r < range_end r)"
| "separated m (r # r' # rs) =
     (range_begin r < range_end r \<and> range_end r + m < range_begin r' \<and> separated m (r' # rs))"

definition res_end :: "MarkRanges \<Rightarrow> nat" where
  "res_end res = (if res = [] then 0 else range_end (last res))"

text \<open>A mark is covered by a list of ranges when one of them contains it.\<close>

definition covered :: "MarkRanges \<Rightarrow> nat \<Rightarrow> bool" where
  "covered rs m = (\<exists>r \<in> set rs. range_begin r \<le> m \<and> m < range_end r)"

text \<open>
  The probe never answers false for a range \<open>[b, e)\<close> that contains mark \<open>m\<close>.
\<close>

definition never_false :: "nat \<Rightarrow> Field list \<Rightarrow> PKCondition \<Rightarrow> nat \<Rightarrow> nat \<Rightarrow> bool" where
  "never_false ks idx c mc m =
     (\<forall>e \<in> {..mc}. \<forall>b \<in> {..m}. m < e \<longrightarrow> may_be_true ks idx c mc (MarkRange b e) \<noteq> Some False)"

text \<open>
  The measure of the descent: a range of \<open>n \<ge> 1\<close> marks accounts for at most \<open>2 * n - 1\<close>
  pops of the stack.
\<close>

fun weight :: "MarkRanges \<Rightarrow> nat" where
  "weight [] = 0"
| "weight (r # rs) = 2 * (range_end r - range_begin r) - 1 + weight rs"

text \<open>
  The oracle is conservative for the marks \<open>sat\<close> (those holding a key that satisfies the
  condition): neither \<^verbatim>\<open>mayBeTrueAfter\<close> nor \<^verbatim>\<open>mayBeTrueInRange\<close> answers false for a key
  interval, delimited by the keys of two marks, that contains such a mark.
\<close>

definition mark_key :: "nat \<Rightarrow> Field list \<Rightarrow> nat \<Rightarrow> Field list" where
  "mark_key ks index m = take ks (drop (m * ks) index)"

definition conservative :: "nat \<Rightarrow> Field list \<Rightarrow> PKCondition \<Rightarrow> (nat \<Rightarrow> bool) \<Rightarrow> bool" where
  "conservative ks index c sat =
     (\<forall>m \<in> {0..<length index div ks}. sat m \<longrightarrow>
        (\<forall>b \<in> {0..m}. mayBeTrueAfter c (mark_key ks index b) \<and>
           (\<forall>e \<in> {m + 1..<length index div ks}.
              mayBeTrueInRange c (mark_key ks index b) (mark_key ks index e))))"

text \<open>
  An index of eight marks with the keys 0, 10, ..., 70 and a condition that holds for the
  keys 55 and 75, that is, in marks 5 and 7.
\<close>

definition example_index :: "Field list" where
  "example_index = map UInt64 [0, 10, 20, 30, 40, 50, 60, 70]"

definition key_le :: "Field list \<Rightarrow> nat \<Rightarrow> bool" where
  "key_le k n = (case k of [UInt64 a] \<Rightarrow> a \<le> n | _ \<Rightarrow> False)"

definition key_ge :: "Field list \<Rightarrow> nat \<Rightarrow> bool" where
  "key_ge k n = (case k of [UInt64 a] \<Rightarrow> n \<le> a | _ \<Rightarrow> False)"

definition example_condition :: PKCondition where
  "example_condition =
     \<lparr>alwaysTrue = False,
      mayBeTrueInRange = (\<lambda>l r. key_le l 55 \<and> key_ge r 55 \<or> key_le l 75 \<and> key_ge r 75),
      mayBeTrueAfter = (\<lambda>l. True)\<rparr>"

section \<open>Parts, streams and the executor\<close>

text \<open>
  The error codes that the file throws, and \<open>UNKNOWN_COLUMN\<close> for the failure of the check
  of the column names, which the storage throws.
\<close>

datatype error =
    UNKNOWN_COLUMN
  | ARGUMENT_OUT_OF_BOUND
  | ILLEGAL_TYPE_OF_COLUMN_FOR_FILTER
  | ILLEGAL_COLUMN
  | LOGICAL_ERROR

datatype AST = ASTFunction string "AST list" | ASTIdentifier string | ASTLiteral Field

text \<open>
  \<^verbatim>\<open>ExpressionAnalyzer(ast, context, columns).getActions(false)\<close>: the compiled actions are
  opaque to the planner, which only hands them on.
\<close>

datatype ExpressionActions = ExpressionActions AST

datatype Range = RightBounded Field bool

record DataPart =
  name :: string
  left_date :: nat
  right_date :: nat
  index :: "Field list"

record RangesInDataPart =
  data_part :: DataPart
  ranges :: MarkRanges

text \<open>
  The streams the planner builds. The reader of a part keeps the arguments of its
  constructor apart from the storage handle, which is the same for all of them: path, block
  size, columns, part, mark ranges, cache flag, \<^verbatim>\<open>PREWHERE\<close> actions and column.
\<close>

datatype BlockInputStream =
    MergeTreeBlockInputStream string nat "string list" DataPart MarkRanges bool
      "ExpressionActions option" string
  | ExpressionBlockInputStream BlockInputStream ExpressionActions
  | FilterBlockInputStream BlockInputStream string
  | ConcatBlockInputStream "BlockInputStream list"
  | CollapsingFinalBlockInputStream "BlockInputStream list" "(string \<times> int) list" string

record MergeTreeData =
  settings :: Settings
  index_granularity :: nat
  columns_list :: "string list"
  sort_description :: "(string \<times> int) list"
  primary_expression :: ExpressionActions
  date_column_name :: string
  sign_column :: string
  sampling_expression :: AST
  sampling_column_type :: string
  full_path :: string
  data_parts :: "DataPart list"

text \<open>
  What the planner calls and this file does not define. \<open>columns_list\<close> above holds the
  names of \<^verbatim>\<open>data.getColumnsList()\<close>, and \<open>sampling_column_type\<close> is the name of the type
  that the sample block of the primary expression gives to the sampling column.
  \<open>requested_count s\<close> is the number that \<^verbatim>\<open>FieldVisitorConvertToNumber<UInt64>\<close> reads from
  the literal of a sample clause whose value, read as a \<^verbatim>\<open>double\<close>, is \<open>s\<close>.
\<close>

record Collaborators =
  getColumnName :: "AST \<Rightarrow> string"
  getRequiredColumns :: "ExpressionActions \<Rightarrow> string list"
  addCondition :: "PKCondition \<Rightarrow> string \<Rightarrow> Range \<Rightarrow> bool \<times> PKCondition"
  random_shuffle :: "RangesInDataPart list \<Rightarrow> RangesInDataPart list"
  requested_count :: "real \<Rightarrow> nat"

record MergeTreeDataSelectExecutor =
  data :: MergeTreeData
  min_marks_for_seek :: nat
  min_marks_for_concurrent_read :: nat
  max_marks_to_use_cache :: nat

text \<open>
  Lines 13-20: the constructor, \<^verbatim>\<open>(min_rows + data.index_granularity - 1) / data.index_granularity\<close>
  in \<^verbatim>\<open>size_t\<close> for each threshold. A granularity of zero rows per mark traps.
\<close>

definition make_executor :: "MergeTreeData \<Rightarrow> MergeTreeDataSelectExecutor option" where
  "make_executor d =
     (if index_granularity d = 0 then None
      else Some
        \<lparr>data = d,
         min_marks_for_seek =
           size_sub (size_add (min_rows_for_seek (settings d)) (index_granularity d)) 1
             div index_granularity d,
         min_marks_for_concurrent_read =
           size_sub (size_add (min_rows_for_concurrent_read (settings d)) (index_granularity d)) 1
             div index_granularity d,
         max_marks_to_use_cache =
           size_sub (size_add (max_rows_to_use_cache (settings d)) (index_granularity d)) 1
             div index_granularity d\<rparr>)"

text \<open>The pruner as the executor calls it on a part.\<close>

definition part_mark_ranges ::
  "MergeTreeDataSelectExecutor \<Rightarrow> DataPart \<Rightarrow> PKCondition \<Rightarrow> MarkRanges option" where
  "part_mark_ranges ex part key_condition =
     markRangesFromPkRange (length (sort_description (data ex)))
       (coarse_index_granularity (settings (data ex))) (min_marks_for_seek ex)
       (index part) key_condition"

text \<open>The number of marks of a list of ranges, as lines 80-81, 160-163, 237-241, 340-342 sum it.\<close>

definition marks_in_ranges :: "MarkRanges \<Rightarrow> nat" where
  "marks_in_ranges rs = sum_list (map (\<lambda>r. size_sub (range_end r) (range_begin r)) rs)"

text \<open>
  \<^verbatim>\<open>new MergeTreeBlockInputStream(data.getFullPath() + part.data_part->name + '/', ...)\<close>.
\<close>

definition part_stream ::
  "MergeTreeData \<Rightarrow> nat \<Rightarrow> string list \<Rightarrow> bool \<Rightarrow> ExpressionActions option \<Rightarrow> string
     \<Rightarrow> DataPart \<Rightarrow> MarkRanges \<Rightarrow> BlockInputStream" where
  "part_stream d max_block_size column_names use_uncompressed_cache prewhere_actions
       prewhere_column part rs =
     MergeTreeBlockInputStream (full_path d @ name part @ ''/'') max_block_size column_names
       part rs use_uncompressed_cache prewhere_actions prewhere_column"

text \<open>
  The two views of a vector: as a stack, head first, and back. \<^verbatim>\<open>std::reverse\<close> on the
  vector is \<open>rev\<close>.
\<close>

definition stack_of :: "'a list \<Rightarrow> 'a list" where
  "stack_of v = rev v"

definition vector_of :: "'a list \<Rightarrow> 'a list" where
  "vector_of s = rev s"

section \<open>The thread spreader for FINAL\<close>

text \<open>Lines 374-403: the expression \<open>sign_column = 1\<close> and the name of its result column.\<close>

definition createPositiveSignCondition ::
  "Collaborators \<Rightarrow> MergeTreeData \<Rightarrow> ExpressionActions \<times> string" where
  "createPositiveSignCondition env d =
     (let func = ASTFunction ''equals'' [ASTIdentifier (sign_column d), ASTLiteral (Int64 1)]
      in (ExpressionActions func, getColumnName env func))"

text \<open>Lines 330-372.\<close>

definition spreadMarkRangesAmongThreadsFinal ::
  "Collaborators \<Rightarrow> MergeTreeDataSelectExecutor \<Rightarrow> RangesInDataPart list \<Rightarrow> nat \<Rightarrow> string list
     \<Rightarrow> nat \<Rightarrow> bool \<Rightarrow> ExpressionActions option \<Rightarrow> string \<Rightarrow> BlockInputStream list" where
  "spreadMarkRangesAmongThreadsFinal env ex parts threads column_names max_block_size
       use_uncompressed_cache prewhere_actions prewhere_column =
     (let sum_marks = sum_list (map (\<lambda>p. marks_in_ranges (ranges p)) parts);
          use_cache = (if sum_marks > max_marks_to_use_cache ex then False
                       else use_uncompressed_cache);
          sign_filter = createPositiveSignCondition env (data ex);
          to_collapse =
            map (\<lambda>part.
                   ExpressionBlockInputStream
                     (part_stream (data ex) max_block_size column_names use_cache
                        prewhere_actions prewhere_column (data_part part) (ranges part))
                     (primary_expression (data ex)))
              parts
      in if length to_collapse = 1
         then [FilterBlockInputStream
                 (ExpressionBlockInputStream (to_collapse ! 0) (fst sign_filter))
                 (snd sign_filter)]
         else if length to_collapse > 1
         then [CollapsingFinalBlockInputStream to_collapse (sort_description (data ex))
                 (sign_column (data ex))]
         else [])"

section \<open>The normal thread spreader\<close>

text \<open>
  Lines 294-309: the loop over the ranges of a part that is taken in part. \<open>part_ranges\<close>
  is the stack \<^verbatim>\<open>part.ranges\<close> (the leftmost range on top), \<open>ranges_to_get_from_part\<close> the
  vector being filled. The loop returns its four variables.
\<close>

function take_ranges ::
  "nat \<Rightarrow> MarkRanges \<Rightarrow> nat \<Rightarrow> MarkRanges \<Rightarrow> error + (nat \<times> MarkRanges \<times> nat \<times> MarkRanges)" where
  "take_ranges need_marks part_ranges marks_in_part ranges_to_get_from_part =
     (if need_marks > 0
      then
        (case part_ranges of
           [] \<Rightarrow> Inl LOGICAL_ERROR
         | rng # rest \<Rightarrow>
             take_ranges
               (size_sub need_marks
                  (min (size_sub (range_end rng) (range_begin rng)) need_marks))
               (if range_begin rng + min (size_sub (range_end rng) (range_begin rng)) need_marks
                     = range_end rng
                then rest
                else MarkRange
                       (range_begin rng
                          + min (size_sub (range_end rng) (range_begin rng)) need_marks)
                       (range_end rng) # rest)
               (size_sub marks_in_part
                  (min (size_sub (range_end rng) (range_begin rng)) need_marks))
               (ranges_to_get_from_part @
                  [MarkRange (range_begin rng)
                     (range_begin rng
                        + min (size_sub (range_end rng) (range_begin rng)) need_marks)]))
      else Inr (need_marks, part_ranges, marks_in_part, ranges_to_get_from_part))"
  by pat_completeness auto
termination
proof (relation "measures [\<lambda>(n, rs, m, got). n, \<lambda>(n, rs, m, got). length rs]", goal_cases)
  case 1
  show ?case by simp
next
  case (2 need_marks part_ranges marks_in_part got rng rest)
  let ?k = "min (size_sub (range_end rng) (range_begin rng)) need_marks"
  have k: "size_sub need_marks ?k = need_marks - ?k" by (simp add: size_sub_def)
  show ?case
  proof (cases "?k = 0")
    case True
    then have "size_sub (range_end rng) (range_begin rng) = 0" using 2(1) by simp
    then have "range_begin rng = range_end rng"
      by (auto simp: size_sub_def split: if_splits)
    then show ?thesis using True 2 by (simp add: size_sub_def)
  next
    case False
    then show ?thesis using 2(1) k by simp
  qed
qed

declare take_ranges.simps [simp del]

text \<open>
  Lines 260-315: the loop over the parts for one worker. \<open>parts\<close> is the stack of the parts
  left, each with its entry of \<^verbatim>\<open>sum_marks_in_parts\<close> (the two vectors are pushed and popped
  together); the ranges of a part are a stack as well. \<open>mk\<close> builds the reader of a part.
\<close>

function worker_loop ::
  "nat \<Rightarrow> (DataPart \<Rightarrow> MarkRanges \<Rightarrow> BlockInputStream) \<Rightarrow> nat
     \<Rightarrow> (RangesInDataPart \<times> nat) list \<Rightarrow> BlockInputStream list
     \<Rightarrow> error + (RangesInDataPart \<times> nat) list \<times> BlockInputStream list" where
  "worker_loop min_for_concurrent_read mk need_marks parts streams =
     (case parts of
        [] \<Rightarrow> Inr (parts, streams)
      | (part, marks_in_part) # rest \<Rightarrow>
          if need_marks = 0 then Inr (parts, streams)
          else
            let need1 = (if marks_in_part \<ge> min_for_concurrent_read
                            \<and> need_marks < min_for_concurrent_read
                         then min_for_concurrent_read else need_marks);
                need2 = (if marks_in_part > need1
                            \<and> size_sub marks_in_part need1 < min_for_concurrent_read
                         then marks_in_part else need1)
            in if marks_in_part \<le> need2
               then worker_loop min_for_concurrent_read mk (size_sub need2 marks_in_part) rest
                      (streams @ [mk (data_part part) (rev (vector_of (ranges part)))])
               else
                 (case take_ranges need2 (ranges part) marks_in_part [] of
                    Inl e \<Rightarrow> Inl e
                  | Inr (need3, part_ranges, marks_left, ranges_to_get_from_part) \<Rightarrow>
                      worker_loop min_for_concurrent_read mk need3
                        ((part\<lparr>ranges := part_ranges\<rparr>, marks_left) # rest)
                        (streams @ [mk (data_part part) ranges_to_get_from_part])))"
  by pat_completeness auto
termination
proof (relation "measures [\<lambda>(c, mk, n, ps, ss). length ps, \<lambda>(c, mk, n, ps, ss). n]", goal_cases)
  case 1
  show ?case by simp
next
  case 2
  then show ?case by simp
next
  case (3 c mk need_marks parts streams p rest part marks_in_part need1 need2 r
      need3 r1 part_ranges r2 marks_left got)
  have need0: "take_ranges n rs m g = Inr (n', x) \<Longrightarrow> n' = 0" for n rs m g n' x
    by (induction n rs m g rule: take_ranges.induct)
      (subst (asm) (2) take_ranges.simps, auto split: list.splits if_splits)
  have "take_ranges need2 (ranges part) marks_in_part [] = Inr (need3, r1)"
    using 3(7,8) by simp
  then have "need3 = 0" by (rule need0)
  then show ?case using 3(1,3) by simp
qed

declare worker_loop.simps [simp del]

text \<open>
  Lines 254-321: the loop over the worker slots. A worker with one stream hands it on as it
  is, otherwise its streams are concatenated.
\<close>

function spread_loop ::
  "nat \<Rightarrow> (DataPart \<Rightarrow> MarkRanges \<Rightarrow> BlockInputStream) \<Rightarrow> nat \<Rightarrow> nat \<Rightarrow> nat
     \<Rightarrow> (RangesInDataPart \<times> nat) list \<Rightarrow> BlockInputStream list
     \<Rightarrow> error + (RangesInDataPart \<times> nat) list \<times> BlockInputStream list" where
  "spread_loop min_for_concurrent_read mk min_marks_per_thread threads i parts res =
     (if i < threads \<and> parts \<noteq> []
      then
        (case worker_loop min_for_concurrent_read mk min_marks_per_thread parts [] of
           Inl e \<Rightarrow> Inl e
         | Inr (parts', streams) \<Rightarrow>
             spread_loop min_for_concurrent_read mk min_marks_per_thread threads (i + 1) parts'
               (res @ [if length streams = 1 then streams ! 0
                       else ConcatBlockInputStream streams]))
      else Inr (parts, res))"
  by pat_completeness auto
termination
  by (relation "measure (\<lambda>(c, mk, m, threads, i, ps, res). threads - i)") auto

declare spread_loop.simps [simp del]

text \<open>
  Lines 216-328. The shuffle is the collaborator's; each part enters the stack with its
  ranges reversed and its number of marks. A division by zero threads traps.
\<close>

definition spreadMarkRangesAmongThreads ::
  "Collaborators \<Rightarrow> MergeTreeDataSelectExecutor \<Rightarrow> RangesInDataPart list \<Rightarrow> nat \<Rightarrow> string list
     \<Rightarrow> nat \<Rightarrow> bool \<Rightarrow> ExpressionActions option \<Rightarrow> string
     \<Rightarrow> (error + BlockInputStream list) option" where
  "spreadMarkRangesAmongThreads env ex parts threads column_names max_block_size
       use_uncompressed_cache prewhere_actions prewhere_column =
     (let shuffled = random_shuffle env parts;
          prepared =
            map (\<lambda>p. (p\<lparr>ranges := stack_of (rev (ranges p))\<rparr>,
                       marks_in_ranges (rev (ranges p))))
              shuffled;
          sum_marks = sum_list (map snd prepared);
          use_cache = (if sum_marks > max_marks_to_use_cache ex then False
                       else use_uncompressed_cache)
      in if sum_marks > 0
         then
           if threads = 0 then None
           else
             (case spread_loop (min_marks_for_concurrent_read ex)
                     (part_stream (data ex) max_block_size column_names use_cache
                        prewhere_actions prewhere_column)
                     (size_sub sum_marks 1 div threads + 1) threads 0 (stack_of prepared) [] of
                Inl e \<Rightarrow> Some (Inl e)
              | Inr (parts', res) \<Rightarrow>
                  if parts' \<noteq> [] then Some (Inl LOGICAL_ERROR) else Some (Inr res))
         else Some (Inr []))"

section \<open>The arithmetic of the sample size\<close>

text \<open>
  The sample size is a \<^verbatim>\<open>double\<close>. A finite binary64 number is a real \<open>m * 2 ^ q\<close> with an
  integer \<open>m\<close> of at most 53 bits and \<open>q \<ge> -1074\<close>; every operation gives the exact result
  rounded to the nearest such number, ties to the even \<open>m\<close>. The operands of the planner are
  sample sizes between zero and one and counts below \<open>2 ^ 64\<close>, so that no result exceeds
  the largest finite number. Infinity and NaN come out of one division only, which the model
  treats where it occurs.

  \<open>bit_length n\<close> is the number of binary digits of \<open>n\<close>, and \<open>floor_log2 x\<close> is the
  exponent \<open>e\<close> with \<open>2 ^ e \<le> x < 2 ^ (e + 1)\<close> of a positive \<open>x\<close>.
\<close>

fun bit_length :: "nat \<Rightarrow> nat" where
  "bit_length n = (if n = 0 then 0 else Suc (bit_length (n div 2)))"

declare bit_length.simps [simp del]

definition floor_log2 :: "real \<Rightarrow> int" where
  "floor_log2 x =
     (if 1 \<le> x then int (bit_length (nat \<lfloor>x\<rfloor>)) - 1
      else - int (bit_length (nat \<lceil>1 / x\<rceil> - 1)))"

definition round_half_even :: "real \<Rightarrow> int" where
  "round_half_even x =
     (if x - of_int \<lfloor>x\<rfloor> < 1 / 2 then \<lfloor>x\<rfloor>
      else if 1 / 2 < x - of_int \<lfloor>x\<rfloor> then \<lfloor>x\<rfloor> + 1
      else if even \<lfloor>x\<rfloor> then \<lfloor>x\<rfloor> else \<lfloor>x\<rfloor> + 1)"

text \<open>
  Rounding to binary64: the last place of \<open>x\<close> is \<open>2 ^ q\<close>, 52 places below its exponent and
  never below the last place \<open>2 ^ -1074\<close> of the subnormal numbers.
\<close>

definition round_double :: "real \<Rightarrow> real" where
  "round_double x =
     (if x = 0 then 0
      else let q = max (floor_log2 \<bar>x\<bar> - 52) (- 1074)
           in of_int (round_half_even (x / 2 powi q)) * 2 powi q)"

text \<open>The conversion of a \<^verbatim>\<open>UInt64\<close> or \<^verbatim>\<open>size_t\<close> to \<^verbatim>\<open>double\<close>.\<close>

definition double_of_uint64 :: "nat \<Rightarrow> real" where
  "double_of_uint64 n = round_double (real n)"

text \<open>
  \<^verbatim>\<open>static_cast<UInt64>\<close> of a \<^verbatim>\<open>double\<close> drops the fraction; the cast is undefined when
  the number left is not a value of \<^verbatim>\<open>UInt64\<close>, and is \<open>None\<close> then.
\<close>

definition to_uint64 :: "real \<Rightarrow> nat option" where
  "to_uint64 x =
     (let truncated = (if 0 \<le> x then \<lfloor>x\<rfloor> else \<lceil>x\<rceil>)
      in if 0 \<le> truncated \<and> truncated < 2 ^ 64 then Some (nat truncated) else None)"

text \<open>
  Line 85: \<^verbatim>\<open>std::min(1., static_cast<double>(requested_count) / total_count)\<close>, both counts
  converted to \<^verbatim>\<open>double\<close>. \<^verbatim>\<open>std::min(1., x)\<close> is \<^verbatim>\<open>x < 1. ? x : 1.\<close>; for a
  \<open>total_count\<close> of zero the quotient is infinity or, for \<open>0 / 0\<close>, NaN, neither of which
  is below one.
\<close>

definition relative_size :: "nat \<Rightarrow> nat \<Rightarrow> real" where
  "relative_size requested total_count =
     (if total_count = 0 then 1
      else min 1 (round_double (double_of_uint64 requested / double_of_uint64 total_count)))"

text \<open>Line 105: \<^verbatim>\<open>static_cast<UInt64>(size * sampling_column_max)\<close>.\<close>

definition column_value_limit :: "real \<Rightarrow> nat \<Rightarrow> nat option" where
  "column_value_limit size1 column_max =
     to_uint64 (round_double (size1 * double_of_uint64 column_max))"

section \<open>The entry point\<close>

record SelectQuery =
  sample_size :: "real option"
  prewhere_expression :: "AST option"
  final :: bool

text \<open>
  \<open>sample_size\<close> is the number that \<^verbatim>\<open>FieldVisitorConvertToNumber<double>\<close> reads from the
  literal of the sample clause, when there is one. The two conditions that \<^verbatim>\<open>read\<close> builds
  from the query are arguments of the model, as is the flag \<^verbatim>\<open>settings.use_uncompressed_cache\<close>.
  The log lines are left out, and so is the output parameter \<^verbatim>\<open>processed_stage\<close>, which is
  always set to \<^verbatim>\<open>FetchColumns\<close>.
\<close>

text \<open>
  Modelled from the spec: \<^verbatim>\<open>data.check(column_names_to_return)\<close> of line 30 belongs to the
  storage. The specification has the planner "validate \<open>column_names_to_return\<close> against
  the table schema; fail unknown column otherwise", the names being "a subset of the table's
  columns". The result is the exception thrown, if any.
\<close>

definition check :: "MergeTreeData \<Rightarrow> string list \<Rightarrow> error option" where
  "check d column_names =
     (if \<forall>column_name \<in> set column_names. column_name \<in> set (columns_list d) then None
      else Some UNKNOWN_COLUMN)"

text \<open>Lines 39-50: the parts whose dates may satisfy the date condition.\<close>

definition select_parts :: "PKCondition \<Rightarrow> DataPart list \<Rightarrow> DataPart list" where
  "select_parts date_condition all_parts =
     filter (\<lambda>part. mayBeTrueInRange date_condition [UInt64 (left_date part)]
                      [UInt64 (right_date part)])
       all_parts"

text \<open>Lines 74-82: the marks that the preliminary index scan selects.\<close>

fun preliminary_marks ::
  "MergeTreeDataSelectExecutor \<Rightarrow> PKCondition \<Rightarrow> DataPart list \<Rightarrow> nat option" where
  "preliminary_marks ex key_condition [] = Some 0"
| "preliminary_marks ex key_condition (part # selected) =
     (case part_mark_ranges ex part key_condition of
        None \<Rightarrow> None
      | Some rs \<Rightarrow>
          (case preliminary_marks ex key_condition selected of
             None \<Rightarrow> None
           | Some marks \<Rightarrow> Some (marks_in_ranges rs + marks)))"

text \<open>Lines 90-102: the largest value of the sampling column.\<close>

definition sampling_column_max :: "string \<Rightarrow> error + nat" where
  "sampling_column_max type_name =
     (if type_name = ''UInt64'' then Inr (2 ^ 64 - 1)
      else if type_name = ''UInt32'' then Inr (2 ^ 32 - 1)
      else if type_name = ''UInt16'' then Inr (2 ^ 16 - 1)
      else if type_name = ''UInt8'' then Inr (2 ^ 8 - 1)
      else Inl ILLEGAL_TYPE_OF_COLUMN_FOR_FILTER)"

text \<open>Lines 126-127 and 178-179: \<^verbatim>\<open>std::sort\<close>, then \<^verbatim>\<open>std::unique\<close> and \<^verbatim>\<open>erase\<close>.\<close>

definition sort_unique :: "string list \<Rightarrow> string list" where
  "sort_unique names = remdups_adj (sort names)"

text \<open>
  Lines 68-88: a sample size above one is a number of rows and is turned into a share of the
  rows that the preliminary index scan selects.
\<close>

definition relative_sample_size ::
  "Collaborators \<Rightarrow> MergeTreeDataSelectExecutor \<Rightarrow> PKCondition \<Rightarrow> DataPart list \<Rightarrow> real
     \<Rightarrow> real option" where
  "relative_sample_size env ex key_condition selected size0 =
     (if size0 > 1
      then
        (case preliminary_marks ex key_condition selected of
           None \<Rightarrow> None
         | Some marks \<Rightarrow>
             Some (relative_size (requested_count env size0)
                     (marks * index_granularity (data ex))))
      else Some size0)"

text \<open>
  What the sampling block (lines 60-128) leaves behind: the key condition, the columns to
  read, the cutoff, and the filter function with its actions when a sample was asked for.
  The block yields nothing when the preliminary scan does not return or the cast of the
  cutoff is undefined.
\<close>

record Sampling =
  key_condition_of :: PKCondition
  column_names_to_read :: "string list"
  sampling_column_value_limit :: nat
  filter_function :: "AST option"
  filter_expression :: "ExpressionActions option"

definition sampling ::
  "Collaborators \<Rightarrow> MergeTreeDataSelectExecutor \<Rightarrow> SelectQuery \<Rightarrow> PKCondition \<Rightarrow> DataPart list
     \<Rightarrow> string list \<Rightarrow> (error + Sampling) option" where
  "sampling env ex select key_condition selected column_names_to_return =
     (case sample_size select of
        None \<Rightarrow>
          Some (Inr \<lparr>key_condition_of = key_condition,
                      column_names_to_read = column_names_to_return,
                      sampling_column_value_limit = 0,
                      filter_function = None, filter_expression = None\<rparr>)
      | Some size0 \<Rightarrow>
          if size0 < 0 then Some (Inl ARGUMENT_OUT_OF_BOUND)
          else
            (case relative_sample_size env ex key_condition selected size0 of
               None \<Rightarrow> None
             | Some size1 \<Rightarrow>
                 (case sampling_column_max (sampling_column_type (data ex)) of
                    Inl e \<Rightarrow> Some (Inl e)
                  | Inr column_max \<Rightarrow>
                      (case column_value_limit size1 column_max of
                         None \<Rightarrow> None
                       | Some limit \<Rightarrow>
                           let added = addCondition env key_condition
                                         (getColumnName env (sampling_expression (data ex)))
                                         (RightBounded (UInt64 limit) True)
                           in if \<not> fst added then Some (Inl ILLEGAL_COLUMN)
                              else
                                let func = ASTFunction ''lessOrEquals''
                                             [sampling_expression (data ex),
                                              ASTLiteral (UInt64 limit)];
                                    actions = ExpressionActions func
                                in Some (Inr
                                     \<lparr>key_condition_of = snd added,
                                      column_names_to_read =
                                        sort_unique (column_names_to_return
                                                       @ getRequiredColumns env actions),
                                      sampling_column_value_limit = limit,
                                      filter_function = Some func,
                                      filter_expression = Some actions\<rparr>)))))"

text \<open>Lines 149-165: the ranges of every part, the parts without a range left out.\<close>

fun parts_with_ranges ::
  "MergeTreeDataSelectExecutor \<Rightarrow> PKCondition \<Rightarrow> DataPart list \<Rightarrow> RangesInDataPart list option"
  where
  "parts_with_ranges ex key_condition [] = Some []"
| "parts_with_ranges ex key_condition (part # selected) =
     (case part_mark_ranges ex part key_condition of
        None \<Rightarrow> None
      | Some rs \<Rightarrow>
          (case parts_with_ranges ex key_condition selected of
             None \<Rightarrow> None
           | Some rest \<Rightarrow>
               Some (if rs \<noteq> [] then \<lparr>data_part = part, ranges = rs\<rparr> # rest else rest)))"

text \<open>Lines 202-211: every stream under the filter of the sample.\<close>

definition sample_filter ::
  "Collaborators \<Rightarrow> Sampling \<Rightarrow> BlockInputStream list \<Rightarrow> BlockInputStream list" where
  "sample_filter env s res =
     (case (filter_function s, filter_expression s) of
        (Some func, Some actions) \<Rightarrow>
          map (\<lambda>original_stream.
                 FilterBlockInputStream (ExpressionBlockInputStream original_stream actions)
                   (getColumnName env func))
            res
      | _ \<Rightarrow> res)"

text \<open>Lines 22-214.\<close>

definition read ::
  "Collaborators \<Rightarrow> MergeTreeDataSelectExecutor \<Rightarrow> string list \<Rightarrow> SelectQuery \<Rightarrow> PKCondition
     \<Rightarrow> PKCondition \<Rightarrow> bool \<Rightarrow> nat \<Rightarrow> nat \<Rightarrow> (error + BlockInputStream list) option" where
  "read env ex column_names_to_return select key_condition date_condition
       use_uncompressed_cache max_block_size threads =
     (case check (data ex) column_names_to_return of
        Some e \<Rightarrow> Some (Inl e)
      | None \<Rightarrow>
          let selected = select_parts date_condition (data_parts (data ex))
          in case sampling env ex select key_condition selected column_names_to_return of
               None \<Rightarrow> None
             | Some (Inl e) \<Rightarrow> Some (Inl e)
             | Some (Inr s) \<Rightarrow>
                 let prewhere_actions =
                       map_option ExpressionActions (prewhere_expression select);
                     prewhere_column =
                       (case prewhere_expression select of
                          None \<Rightarrow> [] | Some e \<Rightarrow> getColumnName env e)
                 in case parts_with_ranges ex (key_condition_of s) selected of
                      None \<Rightarrow> None
                    | Some with_ranges \<Rightarrow>
                        if final select
                        then Some (Inr (sample_filter env s
                               (spreadMarkRangesAmongThreadsFinal env ex with_ranges threads
                                  (sort_unique
                                     (column_names_to_read s
                                        @ getRequiredColumns env (primary_expression (data ex))
                                        @ [sign_column (data ex)]))
                                  max_block_size use_uncompressed_cache prewhere_actions
                                  prewhere_column)))
                        else
                          (case spreadMarkRangesAmongThreads env ex with_ranges threads
                                  (column_names_to_read s) max_block_size
                                  use_uncompressed_cache prewhere_actions prewhere_column of
                             None \<Rightarrow> None
                           | Some (Inl e) \<Rightarrow> Some (Inl e)
                           | Some (Inr res) \<Rightarrow> Some (Inr (sample_filter env s res))))"

section \<open>What the streams read\<close>

text \<open>The pairs of a part and a mark range that a stream reads, in the order it reads them.\<close>

fun stream_parts :: "BlockInputStream \<Rightarrow> (DataPart \<times> MarkRange) list" where
  "stream_parts (MergeTreeBlockInputStream path max_block_size column_names part rs use_cache
       prewhere_actions prewhere_column) = map (Pair part) rs"
| "stream_parts (ExpressionBlockInputStream s actions) = stream_parts s"
| "stream_parts (FilterBlockInputStream s column) = stream_parts s"
| "stream_parts (ConcatBlockInputStream ss) = concat (map stream_parts ss)"
| "stream_parts (CollapsingFinalBlockInputStream ss description sign) =
     concat (map stream_parts ss)"

definition streams_parts :: "BlockInputStream list \<Rightarrow> (DataPart \<times> MarkRange) list" where
  "streams_parts res = concat (map stream_parts res)"

text \<open>The same for the planner's input.\<close>

definition input_parts :: "RangesInDataPart list \<Rightarrow> (DataPart \<times> MarkRange) list" where
  "input_parts ps = concat (map (\<lambda>p. map (Pair (data_part p)) (ranges p)) ps)"

text \<open>The marks of a range, of a list of ranges, and of a list of pairs.\<close>

definition range_marks :: "MarkRange \<Rightarrow> nat list" where
  "range_marks r = [range_begin r..<range_end r]"

definition ranges_marks :: "MarkRanges \<Rightarrow> nat list" where
  "ranges_marks rs = concat (map range_marks rs)"

definition pairs_marks :: "(DataPart \<times> MarkRange) list \<Rightarrow> (DataPart \<times> nat) list" where
  "pairs_marks prs = concat (map (\<lambda>(p, r). map (Pair p) (range_marks r)) prs)"

definition pairs_sum :: "(DataPart \<times> MarkRange) list \<Rightarrow> nat" where
  "pairs_sum prs = sum_list (map (\<lambda>(p, r). size_sub (range_end r) (range_begin r)) prs)"

text \<open>Ranges that do not end before they begin.\<close>

definition wf_ranges :: "MarkRanges \<Rightarrow> bool" where
  "wf_ranges rs = (\<forall>r \<in> set rs. range_begin r \<le> range_end r)"

text \<open>
  An entry of the spreader's stack of parts is sound when its ranges are well formed and its
  counter is the number of their marks.
\<close>

definition sound_entry :: "RangesInDataPart \<times> nat \<Rightarrow> bool" where
  "sound_entry e = (wf_ranges (ranges (fst e)) \<and> snd e = marks_in_ranges (ranges (fst e)))"

definition entries_pairs :: "(RangesInDataPart \<times> nat) list \<Rightarrow> (DataPart \<times> MarkRange) list" where
  "entries_pairs es = input_parts (map fst es)"

definition entries_marks :: "(RangesInDataPart \<times> nat) list \<Rightarrow> nat" where
  "entries_marks es = sum_list (map snd es)"

text \<open>
  The accounts of a state of the spreader, the stack of parts left and the streams built so
  far: the marks, part by part, and their number as the source counts it. One state
  \<open>follows\<close> another when the accounts agree, its entries are sound, and no part without
  marks has appeared.
\<close>

definition state_marks ::
  "(RangesInDataPart \<times> nat) list \<times> BlockInputStream list \<Rightarrow> (DataPart \<times> nat) multiset" where
  "state_marks st =
     mset (pairs_marks (entries_pairs (fst st))) + mset (pairs_marks (streams_parts (snd st)))"

definition state_sum :: "(RangesInDataPart \<times> nat) list \<times> BlockInputStream list \<Rightarrow> nat" where
  "state_sum st = entries_marks (fst st) + pairs_sum (streams_parts (snd st))"

definition follows ::
  "(RangesInDataPart \<times> nat) list \<times> BlockInputStream list
     \<Rightarrow> (RangesInDataPart \<times> nat) list \<times> BlockInputStream list \<Rightarrow> bool" where
  "follows after before =
     ((\<forall>e \<in> set (fst after). sound_entry e) \<and>
      state_marks after = state_marks before \<and>
      state_sum after = state_sum before \<and>
      ((\<forall>e \<in> set (fst before). 0 < snd e) \<longrightarrow> (\<forall>e \<in> set (fst after). 0 < snd e)))"

text \<open>A function that builds the reader of a part: the stream reads the ranges it is given.\<close>

definition reader :: "(DataPart \<Rightarrow> MarkRanges \<Rightarrow> BlockInputStream) \<Rightarrow> bool" where
  "reader mk = (\<forall>part rs. stream_parts (mk part rs) = map (Pair part) rs)"

text \<open>The entries with which the spreader starts, before they are stacked.\<close>

definition entries_of :: "RangesInDataPart list \<Rightarrow> (RangesInDataPart \<times> nat) list" where
  "entries_of xs = map (\<lambda>p. (p, marks_in_ranges (ranges p))) xs"

section \<open>The cache flag of the FINAL spreader\<close>

text \<open>Lines 339-345: the cache is not used for more than \<open>max_marks_to_use_cache\<close> marks.\<close>

definition final_cache ::
  "MergeTreeDataSelectExecutor \<Rightarrow> RangesInDataPart list \<Rightarrow> bool \<Rightarrow> bool" where
  "final_cache ex parts use_uncompressed_cache =
     (if sum_list (map (\<lambda>p. marks_in_ranges (ranges p)) parts) > max_marks_to_use_cache ex
      then False else use_uncompressed_cache)"

section \<open>Configurations on which the pruner returns\<close>


section \<open>A small table\<close>

text \<open>
  Collaborators that shuffle nothing, accept every condition on the sampling column and
  read the whole part of a sample size as the requested count; a table with a one-column
  key and one row per mark, and its executor, whose thresholds are zero marks for a seek,
  zero for a concurrent read and a hundred for the cache.
\<close>

definition example_env :: Collaborators where
  "example_env =
     \<lparr>getColumnName = (\<lambda>ast. case ast of ASTIdentifier n \<Rightarrow> n | ASTFunction f args \<Rightarrow> f
                               | ASTLiteral v \<Rightarrow> ''literal''),
      getRequiredColumns = (\<lambda>actions. []),
      addCondition = (\<lambda>c column r. (True, c)),
      random_shuffle = (\<lambda>ps. ps),
      requested_count = (\<lambda>s. nat \<lfloor>s\<rfloor>)\<rparr>"

definition example_data :: "DataPart list \<Rightarrow> MergeTreeData" where
  "example_data ps =
     \<lparr>settings = \<lparr>min_rows_for_seek = 0, min_rows_for_concurrent_read = 0,
                   max_rows_to_use_cache = 100, coarse_index_granularity = 8\<rparr>,
      index_granularity = 1,
      columns_list = [''d'', ''k'', ''Sign''],
      sort_description = [(''k'', 1)],
      primary_expression = ExpressionActions (ASTIdentifier ''k''),
      date_column_name = ''d'',
      sign_column = ''Sign'',
      sampling_expression = ASTIdentifier ''k'',
      sampling_column_type = ''UInt32'',
      full_path = ''/'',
      data_parts = ps\<rparr>"

definition example_executor :: "DataPart list \<Rightarrow> MergeTreeDataSelectExecutor" where
  "example_executor ps =
     \<lparr>data = example_data ps, min_marks_for_seek = 0, min_marks_for_concurrent_read = 0,
      max_marks_to_use_cache = 100\<rparr>"

text \<open>A part with the keys \<open>0, ..., n - 1\<close>, one per mark; \<open>n = 0\<close> gives an empty index.\<close>

definition example_part :: "string \<Rightarrow> nat \<Rightarrow> DataPart" where
  "example_part nm n = \<lparr>name = nm, left_date = 0, right_date = 0, index = map UInt64 [0..<n]\<rparr>"

definition every_key :: PKCondition where
  "every_key = \<lparr>alwaysTrue = True, mayBeTrueInRange = (\<lambda>l r. True), mayBeTrueAfter = (\<lambda>l. True)\<rparr>"

definition plain_query :: SelectQuery where
  "plain_query = \<lparr>sample_size = None, prewhere_expression = None, final = False\<rparr>"

text \<open>
  Queries with a sample clause, the executor with another type of the sampling column, and
  collaborators for a table whose sampling column is not in the primary key.
\<close>

definition sample_query :: "real \<Rightarrow> SelectQuery" where
  "sample_query s = plain_query\<lparr>sample_size := Some s\<rparr>"

definition with_sampling_type ::
  "string \<Rightarrow> MergeTreeDataSelectExecutor \<Rightarrow> MergeTreeDataSelectExecutor" where
  "with_sampling_type type_name ex = ex\<lparr>data := (data ex)\<lparr>sampling_column_type := type_name\<rparr>\<rparr>"


text \<open>
  A table of one part with the index of eight marks above and 2000 rows per mark, and its
  executor.
\<close>

definition keyed_part :: DataPart where
  "keyed_part = \<lparr>name = ''p'', left_date = 0, right_date = 0, index = example_index\<rparr>"

definition keyed_data :: MergeTreeData where
  "keyed_data = (example_data [keyed_part])\<lparr>index_granularity := 2000\<rparr>"

definition keyed_executor :: MergeTreeDataSelectExecutor where
  "keyed_executor =
     \<lparr>data = keyed_data, min_marks_for_seek = 0, min_marks_for_concurrent_read = 0,
      max_marks_to_use_cache = 1\<rparr>"

text \<open>The number of streams of a result that read a part.\<close>

definition workers_reading :: "DataPart \<Rightarrow> BlockInputStream list \<Rightarrow> nat" where
  "workers_reading part res = length (filter (\<lambda>s. part \<in> fst ` set (stream_parts s)) res)"

text \<open>The pairs of part and range that a run returns, none when it returns no streams.\<close>

definition run_pairs :: "(error + BlockInputStream list) option \<Rightarrow> (DataPart \<times> MarkRange) list" where
  "run_pairs run = (case run of Some (Inr res) \<Rightarrow> streams_parts res | _ \<Rightarrow> [])"

section \<open>The index pruner: proofs\<close>

subsection \<open>Lists of ranges\<close>

lemma tiling_le: "tiling b e cs \<Longrightarrow> b \<le> e"
  by (induction cs arbitrary: b) force+

lemma tiling_append: "tiling b m xs \<Longrightarrow> tiling m e ys \<Longrightarrow> tiling b e (xs @ ys)"
  by (induction xs arbitrary: b) auto

lemma ordered_in_le: "ordered_in lo hi rs \<Longrightarrow> lo \<le> hi"
  by (induction rs arbitrary: lo) force+

lemma ordered_in_mono: "ordered_in lo hi rs \<Longrightarrow> lo' \<le> lo \<Longrightarrow> ordered_in lo' hi rs"
  by (cases rs) auto

lemma tiling_ordered:
  "tiling b e cs \<Longrightarrow> ordered_in e hi rest \<Longrightarrow> ordered_in b hi (cs @ rest)"
  by (induction cs arbitrary: b) auto

lemma separated_snoc:
  "res \<noteq> [] \<Longrightarrow> separated m (res @ [r]) =
     (separated m res \<and> range_end (last res) + m < range_begin r \<and> range_begin r < range_end r)"
  by (induction m res rule: separated.induct) auto

lemma separated_extend:
  "separated m res \<Longrightarrow> res \<noteq> [] \<Longrightarrow> range_end (last res) \<le> e \<Longrightarrow>
   separated m (butlast res @ [MarkRange (range_begin (last res)) e])"
  by (induction m res rule: separated.induct) auto

lemma separated_last: "separated m res \<Longrightarrow> res \<noteq> [] \<Longrightarrow> range_begin (last res) < range_end (last res)"
  by (induction m res rule: separated.induct) auto

lemma separated_hd_nonempty: "separated m (r # rs) \<Longrightarrow> range_begin r < range_end r"
  by (cases rs) auto

lemma separated_head:
  "separated m (r # rs) \<Longrightarrow> x \<in> set rs \<Longrightarrow> range_end r + m < range_begin x"
proof (induction rs arbitrary: r)
  case Nil
  then show ?case by simp
next
  case (Cons r' rs)
  show ?case
  proof (cases "x = r'")
    case True
    then show ?thesis using Cons.prems by simp
  next
    case False
    then have "x \<in> set rs" using Cons.prems by simp
    moreover have "separated m (r' # rs)" using Cons.prems by simp
    ultimately have "range_end r' + m < range_begin x" by (rule Cons.IH [rotated])
    moreover have "range_begin r' < range_end r'"
      using \<open>separated m (r' # rs)\<close> by (rule separated_hd_nonempty)
    moreover have "range_end r + m < range_begin r'" using Cons.prems by simp
    ultimately show ?thesis by simp
  qed
qed

lemma separated_tail: "separated m (r # rs) \<Longrightarrow> separated m rs"
  by (cases rs) auto

lemma separated_nth:
  "separated m res \<Longrightarrow> i < j \<Longrightarrow> j < length res \<Longrightarrow>
   range_end (res ! i) + m < range_begin (res ! j)"
proof (induction res arbitrary: i j)
  case Nil
  then show ?case by simp
next
  case (Cons r rs)
  obtain j' where j: "j = Suc j'" using Cons.prems(2) by (cases j) auto
  show ?case
  proof (cases i)
    case 0
    have "rs ! j' \<in> set rs" using Cons.prems(3) j by simp
    from separated_head [OF Cons.prems(1) this] show ?thesis using 0 j by simp
  next
    case (Suc i')
    have "separated m rs" using Cons.prems(1) by (rule separated_tail)
    from Cons.IH [OF this, of i' j'] show ?thesis using Suc j Cons.prems by simp
  qed
qed

lemma separated_nonempty: "separated m res \<Longrightarrow> r \<in> set res \<Longrightarrow> range_begin r < range_end r"
  by (induction m res rule: separated.induct) auto

lemma covered_append: "covered (xs @ ys) m = (covered xs m \<or> covered ys m)"
  by (auto simp: covered_def)

lemma covered_Cons: "covered (r # rs) m = (range_begin r \<le> m \<and> m < range_end r \<or> covered rs m)"
  by (auto simp: covered_def)

lemma covered_Nil: "covered [] m = False"
  by (simp add: covered_def)

lemma tiling_covered: "tiling b e cs \<Longrightarrow> covered cs m = (b \<le> m \<and> m < e)"
proof (induction cs arbitrary: b)
  case Nil
  then show ?case by (auto simp: covered_Nil)
next
  case (Cons r cs)
  then have "covered cs m = (range_end r \<le> m \<and> m < e)" by simp
  moreover have "range_end r \<le> e" using Cons.prems by (auto dest: tiling_le)
  ultimately show ?case using Cons.prems by (auto simp: covered_Cons)
qed

lemma weight_append: "weight (xs @ ys) = weight xs + weight ys"
  by (induction xs) auto

lemma tiling_weight: "tiling b e cs \<Longrightarrow> weight cs + length cs = 2 * (e - b)"
proof (induction cs arbitrary: b)
  case Nil
  then show ?case by simp
next
  case (Cons r cs)
  then have "weight cs + length cs = 2 * (e - range_end r)" by simp
  moreover have "range_end r \<le> e" using Cons.prems by (auto dest: tiling_le)
  ultimately show ?case using Cons.prems by auto
qed

subsection \<open>One step of the descent\<close>

lemma split_range_tiles:
  "0 < step \<Longrightarrow> b < e \<Longrightarrow>
   \<exists>cs. split_range b step e stack = Some (cs @ stack) \<and> tiling b e cs \<and>
        (b + step < e \<longrightarrow> 2 \<le> length cs)"
proof (induction e arbitrary: stack rule: less_induct)
  case (less e)
  show ?case
  proof (cases "b + step < e")
    case True
    let ?e = "e - step"
    have sub: "size_sub e step = ?e" using True by (simp add: size_sub_def)
    have "?e < e" "b < ?e" using True less.prems by auto
    from less.IH [OF this(1) less.prems(1) this(2), of "MarkRange ?e e # stack"]
    obtain cs where cs: "split_range b step ?e (MarkRange ?e e # stack)
        = Some (cs @ MarkRange ?e e # stack)" "tiling b ?e cs"
      by blast
    have ne: "cs \<noteq> []" using cs(2) \<open>b < ?e\<close> by (cases cs) auto
    have t: "tiling b e (cs @ [MarkRange ?e e])"
      using cs(2) \<open>?e < e\<close> by (intro tiling_append [where m = ?e]) auto
    have "split_range b step e stack = Some ((cs @ [MarkRange ?e e]) @ stack)"
      by (subst split_range.simps) (simp add: True sub cs(1))
    moreover have "2 \<le> length (cs @ [MarkRange ?e e])" using ne by (cases cs) auto
    ultimately show ?thesis using t by blast
  next
    case False
    have "split_range b step e stack = Some ([MarkRange b e] @ stack)"
      by (subst split_range.simps) (simp add: False)
    moreover have "tiling b e [MarkRange b e]" using less.prems by simp
    ultimately show ?thesis using False by blast
  qed
qed

lemma add_mark_separated:
  assumes "separated m res" and "range_begin r < range_end r"
    and "res_end res \<le> range_begin r"
  shows "separated m (add_mark m res r)"
proof (cases "res = []")
  case True
  then show ?thesis using assms by (simp add: add_mark_def)
next
  case False
  then have le: "range_end (last res) \<le> range_begin r"
    using assms(3) by (simp add: res_end_def)
  then have sub: "size_sub (range_begin r) (range_end (last res))
      = range_begin r - range_end (last res)"
    by (simp add: size_sub_def)
  show ?thesis
  proof (cases "m < range_begin r - range_end (last res)")
    case True
    then show ?thesis using False assms sub by (simp add: add_mark_def separated_snoc)
  next
    case far: False
    have "range_end (last res) \<le> range_end r" using le assms(2) by simp
    from separated_extend [OF assms(1) False this]
    show ?thesis using False far sub by (simp add: add_mark_def)
  qed
qed

lemma add_mark_end: "res_end (add_mark m res r) = range_end r"
  by (simp add: add_mark_def res_end_def)

lemma add_mark_covered:
  assumes "separated m res" and "range_begin r < range_end r"
    and "res_end res \<le> range_begin r"
    and "covered res x \<or> (range_begin r \<le> x \<and> x < range_end r)"
  shows "covered (add_mark m res r) x"
proof (cases "res = [] \<or> m < size_sub (range_begin r) (range_end (last res))")
  case True
  then show ?thesis using assms(4) by (auto simp: add_mark_def covered_append covered_Cons)
next
  case False
  then have ne: "res \<noteq> []" by simp
  have le: "range_end (last res) \<le> range_begin r"
    using assms(3) ne by (simp add: res_end_def)
  have lt: "range_begin (last res) < range_end (last res)"
    by (rule separated_last [OF assms(1) ne])
  have res: "res = butlast res @ [last res]" using ne by simp
  have "covered (butlast res @ [last res]) x \<or> (range_begin r \<le> x \<and> x < range_end r)"
    using assms(4) res by simp
  then have "covered (butlast res @ [MarkRange (range_begin (last res)) (range_end r)]) x"
    unfolding covered_append covered_Cons covered_Nil using le lt assms(2) by auto
  then show ?thesis using False by (simp add: add_mark_def)
qed

lemma pk_step_split:
  assumes "ordered_in lo mc (MarkRange b e # rest)" and "e \<noteq> b + 1" and "0 < g"
  shows "\<exists>cs. split_range b (size_sub (size_sub e b) 1 div g + 1) e rest = Some (cs @ rest)
           \<and> tiling b e cs \<and> (2 \<le> g \<longrightarrow> 2 \<le> length cs)"
proof -
  let ?step = "size_sub (size_sub e b) 1 div g + 1"
  have be: "b < e" using assms(1) by simp
  then have L: "size_sub (size_sub e b) 1 = e - b - 1" "0 < e - b - 1"
    using assms(2) by (auto simp: size_sub_def)
  from split_range_tiles [of ?step b e rest] be
  obtain cs where cs: "split_range b ?step e rest = Some (cs @ rest)" "tiling b e cs"
    "b + ?step < e \<longrightarrow> 2 \<le> length cs"
    by auto
  have "b + ?step < e" if "2 \<le> g"
  proof -
    have "(e - b - 1) div g < e - b - 1" using that L(2) by (intro div_less_dividend) auto
    then show ?thesis using L by simp
  qed
  then show ?thesis using cs by blast
qed

lemma index_key_defined:
  assumes "m < length idx div ks"
  shows "index_key ks idx m \<noteq> None"
proof -
  have "(m + 1) * ks \<le> (length idx div ks) * ks" using assms by (intro mult_le_mono1) simp
  also have "\<dots> \<le> length idx" by simp
  finally show ?thesis by (simp add: index_key_def)
qed

lemma may_be_true_defined:
  assumes "b < e" and "e \<le> length idx div ks"
  shows "\<exists>may. may_be_true ks idx c (length idx div ks) (MarkRange b e) = Some may"
proof -
  have "index_key ks idx b \<noteq> None" using assms by (intro index_key_defined) simp
  moreover have "index_key ks idx e \<noteq> None" if "e \<noteq> length idx div ks"
    using assms that by (intro index_key_defined) simp
  ultimately show ?thesis by (auto simp: may_be_true_def)
qed

lemma conservative_never_false:
  assumes "conservative ks idx c sat" and "sat m" and "m < length idx div ks"
  shows "never_false ks idx c (length idx div ks) m"
  unfolding never_false_def
proof (intro ballI impI)
  fix e b assume e: "e \<in> {..length idx div ks}" and b: "b \<in> {..m}" and me: "m < e"
  have A: "mayBeTrueAfter c (mark_key ks idx b)"
    using assms b unfolding conservative_def by auto
  have R: "mayBeTrueInRange c (mark_key ks idx b) (mark_key ks idx e)"
    if "e \<noteq> length idx div ks"
    using assms b e me that unfolding conservative_def by auto
  show "may_be_true ks idx c (length idx div ks) (MarkRange b e) \<noteq> Some False"
    using A R
    by (auto simp: may_be_true_def index_key_def mark_key_def split: option.splits if_splits)
qed

subsection \<open>The descent: invariant and termination\<close>

text \<open>
  Whatever the descent returns from a state whose stack is ordered to the right of the
  ranges already emitted is separated, and covers every mark that was emitted or was on the
  stack and for which the probe never answers false.
\<close>

lemma pk_loop_result:
  assumes "pk_loop ks g mms idx c mc stack res = Some out"
    and "separated mms res" and "ordered_in (res_end res) mc stack"
  shows "separated mms out \<and>
         (\<forall>m. (covered res m \<or> covered stack m) \<and> never_false ks idx c mc m \<longrightarrow> covered out m)"
proof -
  have "separated mms res \<longrightarrow> ordered_in (res_end res) mc stack \<longrightarrow> 
         separated mms out \<and>
         (\<forall>m. (covered res m \<or> covered stack m) \<and> never_false ks idx c mc m \<longrightarrow> covered out m)"
  proof (rule pk_loop.raw_induct [where P = "\<lambda>ks g mms idx c mc stack res out.
      separated mms res \<longrightarrow> ordered_in (res_end res) mc stack \<longrightarrow> 
         separated mms out \<and>
         (\<forall>m. (covered res m \<or> covered stack m) \<and> never_false ks idx c mc m \<longrightarrow> covered out m)",
      OF _ assms(1)], goal_cases)
    case (1 pk ks g mms idx c mc stack res out)
    note IH = 1(1) [rule_format]
    show ?case
    proof (intro impI)
      assume sep: "separated mms res" and ord0: "ordered_in (res_end res) mc stack"
      show "separated mms out \<and>
         (\<forall>m. (covered res m \<or> covered stack m) \<and> never_false ks idx c mc m \<longrightarrow> covered out m)"
      proof (cases stack)
        case Nil
        then show ?thesis using 1(2) sep by (simp add: covered_Nil)
      next
        case (Cons rng rest)
        obtain b e where rng: "rng = MarkRange b e" by (cases rng)
        have ord: "ordered_in (res_end res) mc (MarkRange b e # rest)"
          using ord0 Cons rng by simp
        then have be: "b < e" and lo: "res_end res \<le> b" and rest: "ordered_in e mc rest"
          by simp_all
        have emc: "e \<le> mc" using rest by (rule ordered_in_le)
        note body = 1(2) [unfolded Cons list.case bind_eq_Some_conv]
        then obtain may where may: "may_be_true ks idx c mc rng = Some may"
          and run: "(if \<not> may then pk ks g mms idx c mc rest res
              else if range_end rng = range_begin rng + 1
              then pk ks g mms idx c mc rest (add_mark mms res rng)
              else if g = 0 then None
              else Option.bind
                 (split_range (range_begin rng)
                   (size_sub (size_sub (range_end rng) (range_begin rng)) 1 div g + 1)
                   (range_end rng) rest)
                 (\<lambda>ranges_stack'. pk ks g mms idx c mc ranges_stack' res)) = Some out"
          by blast
        show ?thesis
        proof (cases may)
          case False
          then have call: "pk ks g mms idx c mc rest res = Some out"
            using run by simp
          have "ordered_in (res_end res) mc rest"
            using lo be by (intro ordered_in_mono [OF rest]) simp
          from IH [OF call sep this]
          have R: "separated mms out"
            "\<And>m. (covered res m \<or> covered rest m) \<and> never_false ks idx c mc m \<Longrightarrow> covered out m"
            by blast+
          have "\<not> (b \<le> m \<and> m < e)" if "never_false ks idx c mc m" for m
            using that may False emc rng unfolding never_false_def by auto
          then show ?thesis using R Cons rng by (auto simp: covered_Cons)
        next
          case True
          show ?thesis
          proof (cases "e = b + 1")
            case single: True
            then have call: "pk ks g mms idx c mc rest (add_mark mms res rng) = Some out"
              using run True rng by simp
            have r: "range_begin rng < range_end rng" "res_end res \<le> range_begin rng"
              using be lo rng by simp_all
            have sep': "separated mms (add_mark mms res rng)"
              by (rule add_mark_separated [OF sep r])
            have "ordered_in (res_end (add_mark mms res rng)) mc rest"
              using rest rng by (simp add: add_mark_end)
            from IH [OF call sep' this]
            have R: "separated mms out"
              "\<And>m. (covered (add_mark mms res rng) m \<or> covered rest m)
                  \<and> never_false ks idx c mc m \<Longrightarrow> covered out m"
              by blast+
            have "covered (add_mark mms res rng) m" if "covered res m \<or> (b \<le> m \<and> m < e)" for m
              using add_mark_covered [OF sep r, of m] that rng by simp
            then show ?thesis using R Cons rng by (auto simp: covered_Cons)
          next
            case multi: False
            have g: "0 < g" using run True rng multi by (auto split: if_splits)
            from pk_step_split [OF ord multi g]
            obtain cs where cs: "split_range b (size_sub (size_sub e b) 1 div g + 1) e rest
                = Some (cs @ rest)" "tiling b e cs"
              by blast
            have call: "pk ks g mms idx c mc (cs @ rest) res = Some out"
              using run True rng multi g cs(1) by simp
            have "ordered_in b mc (cs @ rest)" by (rule tiling_ordered [OF cs(2) rest])
            then have "ordered_in (res_end res) mc (cs @ rest)" using lo by (rule ordered_in_mono)
            from IH [OF call sep this]
            have R: "separated mms out"
              "\<And>m. (covered res m \<or> covered (cs @ rest) m) \<and> never_false ks idx c mc m
                 \<Longrightarrow> covered out m"
              by blast+
            show ?thesis
              using R Cons rng tiling_covered [OF cs(2)]
              by (auto simp: covered_Cons covered_append)
          qed
        qed
      qed
    qed
  qed
  then show ?thesis using assms by blast
qed

text \<open>
  With a granularity of at least two every cut yields at least two chunks, all shorter than
  the range, so the descent returns.
\<close>

lemma pk_loop_terminates:
  assumes "2 \<le> g" and "mc = length idx div ks"
  shows "ordered_in lo mc stack \<Longrightarrow> \<exists>out. pk_loop ks g mms idx c mc stack res = Some out"
proof (induction "weight stack" arbitrary: stack res lo rule: less_induct)
  case less
  show ?case
  proof (cases stack)
    case Nil
    then show ?thesis by (subst pk_loop.simps) simp
  next
    case (Cons rng rest)
    obtain b e where rng: "rng = MarkRange b e" by (cases rng)
    have ord: "ordered_in lo mc (MarkRange b e # rest)" using less.prems Cons rng by simp
    then have be: "b < e" and rest: "ordered_in e mc rest" by simp_all
    have emc: "e \<le> mc" using rest by (rule ordered_in_le)
    obtain may where may: "may_be_true ks idx c mc (MarkRange b e) = Some may"
      using may_be_true_defined [OF be, of idx ks c] emc assms(2) by auto
    have smaller: "weight rest < weight stack" using Cons rng be by simp
    have drop: "\<exists>out. pk_loop ks g mms idx c mc rest res' = Some out" for res'
      by (rule less.hyps [OF smaller rest])
    show ?thesis
    proof (cases "\<not> may \<or> e = b + 1")
      case True
      then show ?thesis
        using drop [of res] drop [of "add_mark mms res (MarkRange b e)"]
        by (subst pk_loop.simps) (auto simp: Cons may rng)
    next
      case False
      then have multi: "e \<noteq> b + 1" and "may" by simp_all
      have g: "0 < g" "g \<noteq> 0" using assms(1) by simp_all
      from pk_step_split [OF ord multi g(1)] assms(1)
      obtain cs where cs: "split_range b (size_sub (size_sub e b) 1 div g + 1) e rest
          = Some (cs @ rest)" "tiling b e cs" "2 \<le> length cs"
        by blast
      have "weight cs + 2 \<le> 2 * (e - b)" using tiling_weight [OF cs(2)] cs(3) by simp
      then have "weight (cs @ rest) < weight stack"
        using Cons rng be by (simp add: weight_append)
      moreover have "ordered_in b mc (cs @ rest)" by (rule tiling_ordered [OF cs(2) rest])
      ultimately obtain out where "pk_loop ks g mms idx c mc (cs @ rest) res = Some out"
        using less.hyps by blast
      then show ?thesis
        using multi \<open>may\<close> g(2) cs(1)
        by (subst pk_loop.simps) (simp add: Cons may rng)
    qed
  qed
qed

subsection \<open>Results on the pruner\<close>

text \<open>
  C9: if the condition reports \<^verbatim>\<open>alwaysTrue()\<close>, the pruner returns exactly one range,
  \<open>[0, marks_count)\<close>, whatever the contents of the index, the granularity and the answers of
  the other oracles are. (\<open>marks_count\<close> is \<open>length idx div key_size\<close>, which needs a key of
  at least one column.)
\<close>

theorem always_true_single_range:
  "alwaysTrue c \<Longrightarrow> 0 < ks \<Longrightarrow>
   markRangesFromPkRange ks g mms idx c = Some [MarkRange 0 (length idx div ks)]"
  by (simp add: markRangesFromPkRange_def Let_def)

theorem always_true_single_range_witness:
  "alwaysTrue (example_condition\<lparr>alwaysTrue := True\<rparr>) \<and> (0::nat) < 1 \<and>
   markRangesFromPkRange 1 8 0 example_index (example_condition\<lparr>alwaysTrue := True\<rparr>)
     = Some [MarkRange 0 8]"
  using always_true_single_range [of "example_condition\<lparr>alwaysTrue := True\<rparr>" 1 8 0 example_index]
  by (simp add: example_index_def)

text \<open>What the pruner returns is well formed and separated.\<close>

lemma pruner_ranges:
  assumes run: "markRangesFromPkRange ks g mms idx c = Some res"
  shows "(\<forall>r \<in> set res. range_begin r \<le> range_end r) \<and>
      (\<forall>i j. i < j \<and> j < length res \<longrightarrow> range_end (res ! i) + mms < range_begin (res ! j))"
proof (cases "alwaysTrue c")
  case True
  then have "res = [MarkRange 0 (length idx div ks)]"
    using run by (auto simp: markRangesFromPkRange_def Let_def split: if_splits)
  then show ?thesis by simp
next
  case False
  let ?mc = "length idx div ks"
  from False have loop: "pk_loop ks g mms idx c ?mc [MarkRange 0 ?mc] [] = Some res"
    and "ks \<noteq> 0"
    using run by (auto simp: markRangesFromPkRange_def Let_def split: if_splits)
  have "may_be_true ks idx c ?mc (MarkRange 0 ?mc) \<noteq> None"
    using loop by (subst (asm) pk_loop.simps) (auto simp: bind_eq_Some_conv)
  then have "0 < ?mc"
    using \<open>ks \<noteq> 0\<close>
    by (auto simp: may_be_true_def index_key_def div_greater_zero_iff split: if_splits)
  then have "ordered_in (res_end []) ?mc [MarkRange 0 ?mc]" by (simp add: res_end_def)
  from pk_loop_result [OF loop _ this] have sep: "separated mms res" by simp
  show ?thesis
    using separated_nth [OF sep] separated_nonempty [OF sep] by (auto intro: less_imp_le)
qed

text \<open>
  C1: the ranges the pruner returns go from left to right, do not overlap, and any two of
  them (so any two neighbours) are more than \<open>min_marks_for_seek\<close> marks apart; and a
  single-mark hit whose gap to the last output range is at most \<open>min_marks_for_seek\<close>
  extends that range instead of starting a new one.
\<close>

theorem pruner_output_separated:
  "(markRangesFromPkRange ks g mms idx c = Some res \<longrightarrow>
      (\<forall>r \<in> set res. range_begin r \<le> range_end r) \<and>
      (\<forall>i j. i < j \<and> j < length res \<longrightarrow> range_end (res ! i) + mms < range_begin (res ! j)))
   \<and> (prev \<noteq> [] \<and> range_end (last prev) \<le> range_begin hit
        \<and> range_begin hit - range_end (last prev) \<le> mms \<longrightarrow>
      add_mark mms prev hit = butlast prev @ [MarkRange (range_begin (last prev)) (range_end hit)])"
proof (rule conjI; rule impI)
  assume "markRangesFromPkRange ks g mms idx c = Some res"
  then show "(\<forall>r \<in> set res. range_begin r \<le> range_end r) \<and>
      (\<forall>i j. i < j \<and> j < length res \<longrightarrow> range_end (res ! i) + mms < range_begin (res ! j))"
    by (rule pruner_ranges)
next
  assume "prev \<noteq> [] \<and> range_end (last prev) \<le> range_begin hit
        \<and> range_begin hit - range_end (last prev) \<le> mms"
  then show "add_mark mms prev hit
      = butlast prev @ [MarkRange (range_begin (last prev)) (range_end hit)]"
    by (simp add: add_mark_def size_sub_def)
qed

theorem pruner_output_separated_witness:
  "markRangesFromPkRange 1 2 0 example_index example_condition
     = Some [MarkRange 5 6, MarkRange 7 8]
   \<and> range_end (MarkRange 5 6) + 0 < range_begin (MarkRange 7 8)
   \<and> markRangesFromPkRange 1 2 2 example_index example_condition = Some [MarkRange 5 8]
   \<and> add_mark 2 [MarkRange 5 6] (MarkRange 7 8) = [MarkRange 5 8]"
proof -
  have run: "markRangesFromPkRange 1 2 0 example_index example_condition
     = Some [MarkRange 5 6, MarkRange 7 8]"
    by code_simp
  have run2: "markRangesFromPkRange 1 2 2 example_index example_condition = Some [MarkRange 5 8]"
    by code_simp
  from pruner_output_separated [of 1 2 0 example_index example_condition
      "[MarkRange 5 6, MarkRange 7 8]" "[MarkRange 5 6]" "MarkRange 7 8"]
  show ?thesis using run run2
    by (simp add: add_mark_def size_sub_def)
qed

text \<open>
  C3: with a conservative oracle, every mark that holds a satisfying key is covered by a
  range of the pruner's output; and the pruner does return when the granularity is at
  least two and the index is not empty (or the condition is always true).
\<close>

theorem pruner_covers_satisfying_marks:
  assumes "conservative ks idx c sat"
  shows "(\<forall>res. markRangesFromPkRange ks g mms idx c = Some res \<longrightarrow>
            (\<forall>m < length idx div ks. sat m \<longrightarrow> covered res m))
       \<and> (0 < ks \<and> 2 \<le> g \<and> (alwaysTrue c \<or> 0 < length idx div ks) \<longrightarrow>
            markRangesFromPkRange ks g mms idx c \<noteq> None)"
proof (intro conjI allI impI)
  fix res m
  let ?mc = "length idx div ks"
  assume run: "markRangesFromPkRange ks g mms idx c = Some res" and m: "m < ?mc" "sat m"
  show "covered res m"
  proof (cases "alwaysTrue c")
    case True
    then have "res = [MarkRange 0 ?mc]"
      using run by (auto simp: markRangesFromPkRange_def Let_def split: if_splits)
    then show ?thesis using m by (simp add: covered_Cons)
  next
    case False
    then have loop: "pk_loop ks g mms idx c ?mc [MarkRange 0 ?mc] [] = Some res"
      using run by (auto simp: markRangesFromPkRange_def Let_def split: if_splits)
    have ord: "ordered_in (res_end []) ?mc [MarkRange 0 ?mc]" using m by (simp add: res_end_def)
    have nf: "never_false ks idx c ?mc m"
      by (rule conservative_never_false [OF assms m(2,1)])
    have "covered [MarkRange 0 ?mc] m" using m by (simp add: covered_Cons)
    with pk_loop_result [OF loop _ ord] nf show ?thesis by simp
  qed
next
  let ?mc = "length idx div ks"
  assume A: "0 < ks \<and> 2 \<le> g \<and> (alwaysTrue c \<or> 0 < ?mc)"
  show "markRangesFromPkRange ks g mms idx c \<noteq> None"
  proof (cases "alwaysTrue c")
    case True
    then show ?thesis using A by (simp add: markRangesFromPkRange_def Let_def)
  next
    case False
    then have "ordered_in 0 ?mc [MarkRange 0 ?mc]" using A by simp
    from pk_loop_terminates [OF _ refl this, of g mms c "[]"] A
    show ?thesis using False by (auto simp: markRangesFromPkRange_def Let_def)
  qed
qed


lemma example_keys: "m < 8 \<Longrightarrow> mark_key 1 example_index m = [UInt64 (10 * m)]"
proof -
  assume "m < 8"
  then have "m \<in> {0, 1, 2, 3, 4, 5, 6, 7}" by auto
  then show ?thesis by (auto simp: mark_key_def example_index_def)
qed

lemma example_conservative:
  "conservative 1 example_index example_condition (\<lambda>m. m = 5 \<or> m = 7)"
proof -
  have len: "length example_index div 1 = 8" by (simp add: example_index_def)
  have "mayBeTrueInRange example_condition (mark_key 1 example_index b) (mark_key 1 example_index e)"
    if "b \<le> 5" "6 \<le> e" "e < 8" for b e
    using that example_keys [of b] example_keys [of e]
    by (simp add: example_condition_def key_le_def key_ge_def)
  then show ?thesis
    unfolding conservative_def len by (auto simp: example_condition_def)
qed

theorem pruner_covers_satisfying_marks_witness:
  "conservative 1 example_index example_condition (\<lambda>m. m = 5 \<or> m = 7)
   \<and> markRangesFromPkRange 1 2 0 example_index example_condition
       = Some [MarkRange 5 6, MarkRange 7 8]
   \<and> covered [MarkRange 5 6, MarkRange 7 8] 5 \<and> covered [MarkRange 5 6, MarkRange 7 8] 7"
proof -
  have run: "markRangesFromPkRange 1 2 0 example_index example_condition
     = Some [MarkRange 5 6, MarkRange 7 8]"
    by code_simp
  have len: "length example_index div 1 = 8" by (simp add: example_index_def)
  note cover = pruner_covers_satisfying_marks [OF example_conservative, of 2 0, THEN conjunct1,
      rule_format, OF run, unfolded len]
  have "covered [MarkRange 5 6, MarkRange 7 8] 5" by (rule cover) simp_all
  moreover have "covered [MarkRange 5 6, MarkRange 7 8] 7" by (rule cover) simp_all
  ultimately show ?thesis using example_conservative run by simp
qed

section \<open>The arithmetic of the sample size: proofs\<close>

lemma bit_length_numeral [simp]:
  "bit_length 0 = 0"
  "bit_length 1 = 1"
  "bit_length (Suc 0) = 1"
  "bit_length (numeral (Num.Bit0 k)) = Suc (bit_length (numeral k))"
  "bit_length (numeral (Num.Bit1 k)) = Suc (bit_length (numeral k))"
  by (subst bit_length.simps, simp)+

lemma bit_length_pos: "0 < n \<Longrightarrow> 0 < bit_length n"
  by (subst bit_length.simps) simp

lemma bit_length_bounds:
  "0 < n \<Longrightarrow> 2 ^ (bit_length n - 1) \<le> n \<and> n < 2 ^ bit_length n"
proof (induction n rule: bit_length.induct)
  case (1 n)
  show ?case
  proof (cases "n div 2 = 0")
    case True
    with "1.prems" have "n = 1" by presburger
    thus ?thesis by simp
  next
    case False
    hence pos: "0 < n div 2" by simp
    from "1.prems" have n: "n \<noteq> 0" by simp
    from "1.IH" [OF n pos]
    have lo: "2 ^ (bit_length (n div 2) - 1) \<le> n div 2"
      and hi: "n div 2 < 2 ^ bit_length (n div 2)" by simp_all
    have bl: "bit_length n = Suc (bit_length (n div 2))"
      using n by (subst bit_length.simps) simp
    obtain k where k: "bit_length (n div 2) = Suc k"
      using bit_length_pos [OF pos] by (cases "bit_length (n div 2)") auto
    from lo hi k have "2 ^ k \<le> n div 2" "n div 2 < 2 ^ Suc k" by simp_all
    hence "2 ^ Suc k \<le> n" "n < 2 ^ Suc (Suc k)" by simp_all
    thus ?thesis by (simp add: bl k)
  qed
qed

text \<open>\<open>floor_log2\<close> is the exponent of a positive number.\<close>

lemma floor_log2_bounds:
  assumes "0 < x"
  shows "2 powi floor_log2 x \<le> x \<and> x < 2 powi (floor_log2 x + 1)"
proof (cases "1 \<le> x")
  case True
  define n where "n = nat \<lfloor>x\<rfloor>"
  have "0 < n" using True by (simp add: n_def)
  moreover have "real n \<le> x" using True by (simp add: n_def)
  moreover have "x < real n + 1" using True unfolding n_def by (simp; linarith)
  ultimately have n: "0 < n" "real n \<le> x" "x < real n + 1" by blast+
  obtain k where k: "bit_length n = Suc k"
    using bit_length_pos [OF n(1)] by (cases "bit_length n") auto
  from bit_length_bounds [OF n(1)] k have "2 ^ k \<le> n" "Suc n \<le> 2 ^ Suc k" by simp_all
  hence "real (2 ^ k) \<le> real n" "real (Suc n) \<le> real (2 ^ Suc k)"
    by (simp_all only: of_nat_le_iff)
  hence "(2::real) ^ k \<le> real n" "real n + 1 \<le> 2 ^ Suc k"
    by simp_all
  with n have "(2::real) ^ k \<le> x" "x < 2 ^ Suc k" by linarith+
  moreover have "floor_log2 x = int k" using True by (simp add: floor_log2_def n_def [symmetric] k)
  ultimately show ?thesis by (simp add: power_int_add)
next
  case False
  define y where "y = 1 / x"
  define z where "z = \<lceil>y\<rceil>"
  define m where "m = nat z - 1"
  have y: "1 < y" using False assms by (simp add: y_def)
  have z: "2 \<le> z" "of_int z - 1 < y" "y \<le> of_int z"
    unfolding z_def using y by linarith+
  have "real m = real (nat z) - 1" unfolding m_def using z(1) by (simp add: of_nat_diff)
  also have "real (nat z) = of_int z" using z(1) by simp
  finally have c: "real m = of_int z - 1" .
  have "0 < m" using z(1) unfolding m_def by simp
  moreover have "real m < y" unfolding c using z by linarith
  moreover have "y \<le> real m + 1" unfolding c using z by linarith
  ultimately have m: "0 < m" "real m < y" "y \<le> real m + 1" by blast+
  obtain k where k: "bit_length m = Suc k"
    using bit_length_pos [OF m(1)] by (cases "bit_length m") auto
  from bit_length_bounds [OF m(1)] k have "2 ^ k \<le> m" "Suc m \<le> 2 ^ Suc k" by simp_all
  hence "real (2 ^ k) \<le> real m" "real (Suc m) \<le> real (2 ^ Suc k)"
    by (simp_all only: of_nat_le_iff)
  hence "(2::real) ^ k \<le> real m" "real m + 1 \<le> 2 ^ Suc k"
    by simp_all
  with m have b: "(2::real) ^ k < y" "y \<le> 2 ^ Suc k" by linarith+
  have fl: "floor_log2 x = - int (Suc k)"
    using False unfolding floor_log2_def y_def [symmetric] z_def [symmetric] m_def [symmetric] k
    by simp
  have x: "x = 1 / y" using assms by (simp add: y_def)
  have "1 / (2::real) ^ Suc k \<le> x"
    unfolding x using b(2) y by (intro divide_left_mono) auto
  moreover have "x < 1 / (2::real) ^ k"
    unfolding x using b(1) y by (intro divide_strict_left_mono) auto
  moreover have "(2::real) powi (- int (Suc k)) = 1 / 2 ^ Suc k"
    by (simp only: power_int_minus power_int_of_nat inverse_eq_divide)
  moreover have "(2::real) powi (- int (Suc k) + 1) = 1 / 2 ^ k"
  proof -
    have "- int (Suc k) + 1 = - int k" by simp
    thus ?thesis by (simp only: power_int_minus power_int_of_nat inverse_eq_divide)
  qed
  ultimately show ?thesis unfolding fl by simp
qed

text \<open>Rounding moves a number by at most half a unit, and leaves an integer alone.\<close>

lemma round_half_even_nearest: "\<bar>of_int (round_half_even x) - x\<bar> \<le> 1 / 2"
  unfolding round_half_even_def by (auto split: if_splits)

lemma round_half_even_of_int: "round_half_even (of_int k) = k"
  by (simp add: round_half_even_def)

lemma round_half_even_bounds: "\<lfloor>x\<rfloor> \<le> round_half_even x \<and> round_half_even x \<le> \<lceil>x\<rceil>"
proof (cases "x = of_int \<lfloor>x\<rfloor>")
  case True
  then have "x - of_int \<lfloor>x\<rfloor> = 0" by simp
  then have "round_half_even x = \<lfloor>x\<rfloor>" unfolding round_half_even_def by simp
  then show ?thesis by (simp add: floor_le_ceiling)
next
  case False
  then have "\<lceil>x\<rceil> = \<lfloor>x\<rfloor> + 1" by (simp add: ceiling_altdef)
  then show ?thesis unfolding round_half_even_def by simp
qed

text \<open>Rounding is monotone at zero and at the powers of two, which are binary64 numbers.\<close>

lemma round_double_nonneg: "0 \<le> x \<Longrightarrow> 0 \<le> round_double x"
proof (cases "x = 0")
  case True
  then show ?thesis by (simp add: round_double_def)
next
  case False
  assume "0 \<le> x"
  define q where "q = max (floor_log2 \<bar>x\<bar> - 52) (- 1074)"
  have "0 \<le> x / 2 powi q" using \<open>0 \<le> x\<close> by simp
  then have "0 \<le> \<lfloor>x / 2 powi q\<rfloor>" by simp
  then have "0 \<le> round_half_even (x / 2 powi q)"
    using round_half_even_bounds [of "x / 2 powi q"] by linarith
  then show ?thesis using False by (simp add: round_double_def q_def [symmetric] Let_def)
qed

lemma round_double_le_power:
  assumes "0 \<le> x" and "x \<le> 2 ^ k"
  shows "round_double x \<le> 2 ^ k"
proof (cases "x = 0")
  case True
  then show ?thesis by (simp add: round_double_def)
next
  case False
  then have pos: "0 < x" using assms(1) by simp
  define e where "e = floor_log2 \<bar>x\<bar>"
  define q where "q = max (e - 52) (- 1074)"
  have "2 powi e \<le> x" using floor_log2_bounds [OF pos] pos by (simp add: e_def)
  then have "(2::real) powi e \<le> 2 powi int k" using assms(2) by simp
  then have "e \<le> int k" by (rule power_int_le_imp_le_exp [rotated]) simp_all
  then have q: "q \<le> int k" by (simp add: q_def)
  define n where "n = nat (int k - q)"
  have k: "int k = int n + q" using q by (simp add: n_def)
  have pw: "(2::real) ^ k = 2 ^ n * 2 powi q"
  proof -
    have "(2::real) ^ k = 2 powi int k" by simp
    also have "\<dots> = 2 powi int n * 2 powi q" unfolding k by (simp add: power_int_add)
    finally show ?thesis by simp
  qed
  have "x / 2 powi q \<le> 2 ^ n" using assms(2) unfolding pw by (simp add: field_simps)
  then have "\<lceil>x / 2 powi q\<rceil> \<le> 2 ^ n" by (simp add: ceiling_le_iff)
  then have "round_half_even (x / 2 powi q) \<le> 2 ^ n"
    using round_half_even_bounds [of "x / 2 powi q"] by linarith
  then have "real_of_int (round_half_even (x / 2 powi q)) \<le> 2 ^ n"
    by (metis of_int_le_iff of_int_numeral of_int_power)
  then have "real_of_int (round_half_even (x / 2 powi q)) * 2 powi q \<le> 2 ^ n * 2 powi q"
    by (intro mult_right_mono) auto
  then show ?thesis using False unfolding pw by (simp add: round_double_def e_def q_def Let_def)
qed

text \<open>
  The cast of line 105 is defined for a size between zero and one and a largest value below
  \<open>2 ^ 32\<close>, and the size that line 85 computes lies between zero and one.
\<close>

lemma narrow_cutoff_defined:
  assumes "0 \<le> size1" and "size1 \<le> 1" and "column_max < 2 ^ 32"
  shows "column_value_limit size1 column_max \<noteq> None"
proof -
  have "real column_max \<le> 2 ^ 32" using assms(3)
    by (metis less_imp_le of_nat_le_iff of_nat_numeral of_nat_power)
  then have m: "0 \<le> double_of_uint64 column_max" "double_of_uint64 column_max \<le> 2 ^ 32"
    unfolding double_of_uint64_def
    by (simp add: round_double_nonneg, intro round_double_le_power, simp_all)
  have "size1 * double_of_uint64 column_max \<le> 1 * 2 ^ 32"
    using assms(1,2) m by (intro mult_mono) auto
  then have p: "0 \<le> size1 * double_of_uint64 column_max" "size1 * double_of_uint64 column_max \<le> 2 ^ 32"
    using assms(1) m by simp_all
  have r: "0 \<le> round_double (size1 * double_of_uint64 column_max)"
    "round_double (size1 * double_of_uint64 column_max) \<le> 2 ^ 32"
    using p by (simp add: round_double_nonneg, intro round_double_le_power, simp_all)
  then have "\<lfloor>round_double (size1 * double_of_uint64 column_max)\<rfloor> \<le> 2 ^ 32"
    by (simp add: floor_le_iff) 
  moreover have "0 \<le> \<lfloor>round_double (size1 * double_of_uint64 column_max)\<rfloor>" using r by simp
  ultimately show ?thesis using r(1) by (simp add: column_value_limit_def to_uint64_def)
qed

lemma relative_size_bounds: "0 \<le> relative_size requested total_count \<and> relative_size requested total_count \<le> 1"
proof -
  have "0 \<le> double_of_uint64 n" for n by (simp add: double_of_uint64_def round_double_nonneg)
  then have "0 \<le> round_double (double_of_uint64 requested / double_of_uint64 total_count)"
    by (intro round_double_nonneg) simp
  then show ?thesis by (simp add: relative_size_def)
qed

text \<open>The facts that evaluate the arithmetic on numerals.\<close>

lemmas double_defs = double_of_uint64_def round_double_def floor_log2_def round_half_even_def
  to_uint64_def relative_size_def column_value_limit_def Let_def

text \<open>
  Some values: the largest \<^verbatim>\<open>UInt64\<close> becomes \<open>2 ^ 64\<close>, a tie goes to the even neighbour,
  and a tenth and a third are the numbers \<^verbatim>\<open>0x3FB999999999999A\<close> and \<^verbatim>\<open>0x3FD5555555555555\<close>.
\<close>

lemma binary64_examples:
  "double_of_uint64 (2 ^ 64 - 1) = 2 ^ 64"
  "double_of_uint64 (2 ^ 53 + 1) = 2 ^ 53"
  "double_of_uint64 (2 ^ 53 + 3) = 2 ^ 53 + 4"
  "round_double (1 / 10) = 3602879701896397 / 2 ^ 55"
  "round_double (1 / 3) = 6004799503160661 / 2 ^ 54"
  "relative_size 1000 4000 = 1 / 4"
  "relative_size 5 0 = 1"
  by (simp_all add: double_defs)

section \<open>The normal thread spreader: proofs\<close>

subsection \<open>Counting marks\<close>

lemma marks_in_ranges_Nil [simp]: "marks_in_ranges [] = 0"
  by (simp add: marks_in_ranges_def)

lemma marks_in_ranges_Cons:
  "marks_in_ranges (r # rs) = size_sub (range_end r) (range_begin r) + marks_in_ranges rs"
  by (simp add: marks_in_ranges_def)

lemma marks_in_ranges_append:
  "marks_in_ranges (xs @ ys) = marks_in_ranges xs + marks_in_ranges ys"
  by (simp add: marks_in_ranges_def)

lemma size_sub_le: "b \<le> a \<Longrightarrow> size_sub a b = a - b"
  by (simp add: size_sub_def)

lemma ranges_marks_Cons: "ranges_marks (r # rs) = range_marks r @ ranges_marks rs"
  by (simp add: ranges_marks_def)

lemma ranges_marks_append: "ranges_marks (xs @ ys) = ranges_marks xs @ ranges_marks ys"
  by (simp add: ranges_marks_def)

lemma take_ranges_ok:
  assumes "wf_ranges rs" and "n \<le> marks_in_ranges rs" and "m = marks_in_ranges rs"
  shows "\<exists>rs' new. take_ranges n rs m got = Inr (0, rs', m - n, got @ new) \<and>
           wf_ranges rs' \<and> wf_ranges new \<and> marks_in_ranges rs' = m - n \<and>
           marks_in_ranges new = n \<and> ranges_marks new @ ranges_marks rs' = ranges_marks rs"
  using assms
proof (induction n rs m got rule: take_ranges.induct)
  case (1 n rs m got)
  show ?case
  proof (cases "n = 0")
    case True
    have "take_ranges n rs m got = Inr (0, rs, m - n, got @ [])"
      using True by (subst take_ranges.simps) simp
    moreover have "wf_ranges []" by (simp add: wf_ranges_def)
    ultimately show ?thesis
      using 1(2,4) True
      by (intro exI [of _ rs] exI [of _ "[]::MarkRanges"]) (simp add: ranges_marks_def)
  next
    case False
    then have pos: "0 < n" by simp
    then obtain rng rest where rs: "rs = rng # rest" using 1(3) by (cases rs) auto
    obtain b e where rng: "rng = MarkRange b e" by (cases rng)
    have be: "b \<le> e" and wrest: "wf_ranges rest" using 1(2) rs rng by (auto simp: wf_ranges_def)
    have len: "size_sub (range_end rng) (range_begin rng) = e - b" using be rng by (simp add: size_sub_le)
    have len2: "size_sub e b = e - b" using be by (simp add: size_sub_le)
    let ?k = "min (e - b) n"
    have m: "m = (e - b) + marks_in_ranges rest" using 1(4) rs len by (simp add: marks_in_ranges_Cons)
    let ?rs1 = "if b + ?k = e then rest else MarkRange (b + ?k) e # rest"
    have w1: "wf_ranges ?rs1" using wrest be by (auto simp: wf_ranges_def)
    have m1: "marks_in_ranges ?rs1 = m - ?k"
      using m be by (auto simp: marks_in_ranges_Cons size_sub_le)
    have "n - ?k \<le> m - ?k" using 1(3,4) by (intro diff_le_mono) simp
    then have n1: "n - ?k \<le> marks_in_ranges ?rs1" unfolding m1 .
    have subs: "size_sub n ?k = n - ?k" "size_sub m ?k = m - ?k"
      using m by (simp_all add: size_sub_le)
    have step: "take_ranges n rs m got
        = take_ranges (n - ?k) ?rs1 (m - ?k) (got @ [MarkRange b (b + ?k)])"
      using pos by (subst take_ranges.simps) (simp add: rs rng len subs size_sub_le be)
    have IH: "\<exists>rs' new. take_ranges (n - ?k) ?rs1 (m - ?k) (got @ [MarkRange b (b + ?k)])
          = Inr (0, rs', m - ?k - (n - ?k), (got @ [MarkRange b (b + ?k)]) @ new) \<and>
           wf_ranges rs' \<and> wf_ranges new \<and> marks_in_ranges rs' = m - ?k - (n - ?k) \<and>
           marks_in_ranges new = n - ?k \<and> ranges_marks new @ ranges_marks rs' = ranges_marks ?rs1"
      using 1(1) [OF pos rs, unfolded rng MarkRange.sel len2 subs, OF w1 n1 m1 [symmetric]] .
    then obtain rs' new where R: "take_ranges (n - ?k) ?rs1 (m - ?k) (got @ [MarkRange b (b + ?k)])
          = Inr (0, rs', m - ?k - (n - ?k), (got @ [MarkRange b (b + ?k)]) @ new)"
        "wf_ranges rs'" "wf_ranges new" "marks_in_ranges rs' = m - ?k - (n - ?k)"
        "marks_in_ranges new = n - ?k" "ranges_marks new @ ranges_marks rs' = ranges_marks ?rs1"
      by blast
    have mn: "m - ?k - (n - ?k) = m - n" by simp
    have marks1: "range_marks (MarkRange b (b + ?k)) @ ranges_marks ?rs1 = ranges_marks rs"
    proof -
      have "[b..<b + ?k] @ [b + ?k..<e] = [b..<e]"
        using be by (metis le_add1 le_add_diff_inverse min.cobounded1 nat_add_left_cancel_le upt_add_eq_append)
      then show ?thesis
        by (auto simp: rs rng ranges_marks_Cons range_marks_def)
    qed
    show ?thesis
    proof (rule exI [of _ rs'], rule exI [of _ "MarkRange b (b + ?k) # new"], intro conjI)
      show "take_ranges n rs m got = Inr (0, rs', m - n, got @ MarkRange b (b + ?k) # new)"
        using step R(1) mn by simp
      show "wf_ranges rs'" by (rule R(2))
      show "wf_ranges (MarkRange b (b + ?k) # new)" using R(3) by (simp add: wf_ranges_def)
      show "marks_in_ranges rs' = m - n" using R(4) mn by simp
      show "marks_in_ranges (MarkRange b (b + ?k) # new) = n"
        using R(5) by (simp add: marks_in_ranges_Cons size_sub_le)
      show "ranges_marks (MarkRange b (b + ?k) # new) @ ranges_marks rs' = ranges_marks rs"
        using R(6) marks1 by (simp add: ranges_marks_Cons)
    qed
  qed
qed


lemma pairs_marks_append: "pairs_marks (xs @ ys) = pairs_marks xs @ pairs_marks ys"
  by (simp add: pairs_marks_def)

lemma pairs_marks_part: "pairs_marks (map (Pair p) rs) = map (Pair p) (ranges_marks rs)"
  by (induction rs) (simp_all add: pairs_marks_def ranges_marks_def)

lemma pairs_sum_append: "pairs_sum (xs @ ys) = pairs_sum xs + pairs_sum ys"
  by (simp add: pairs_sum_def)

lemma pairs_sum_part: "pairs_sum (map (Pair p) rs) = marks_in_ranges rs"
  by (simp add: pairs_sum_def marks_in_ranges_def comp_def)

lemma streams_parts_append: "streams_parts (xs @ ys) = streams_parts xs @ streams_parts ys"
  by (simp add: streams_parts_def)

lemma streams_parts_single: "streams_parts [s] = stream_parts s"
  by (simp add: streams_parts_def)

lemma entries_pairs_Cons:
  "entries_pairs (e # es) = map (Pair (data_part (fst e))) (ranges (fst e)) @ entries_pairs es"
  by (simp add: entries_pairs_def input_parts_def)

lemma entries_marks_Cons: "entries_marks (e # es) = snd e + entries_marks es"
  by (simp add: entries_marks_def)

lemma follows_refl: "\<forall>e \<in> set (fst st). sound_entry e \<Longrightarrow> follows st st"
  by (simp add: follows_def)

lemma follows_trans: "follows c b \<Longrightarrow> follows b a \<Longrightarrow> follows c a"
  by (simp add: follows_def)

text \<open>Taking a whole part moves its ranges from the stack to a new stream.\<close>

lemma follows_whole:
  assumes "reader mk" and "\<forall>e \<in> set ((part, marks) # rest). sound_entry e"
  shows "follows (rest, streams @ [mk (data_part part) (ranges part)])
           ((part, marks) # rest, streams)"
proof -
  have "stream_parts (mk (data_part part) (ranges part)) = map (Pair (data_part part)) (ranges part)"
    using assms(1) by (simp add: reader_def)
  moreover have "marks = marks_in_ranges (ranges part)"
    using assms(2) by (simp add: sound_entry_def)
  ultimately show ?thesis
    using assms(2)
    by (simp add: follows_def state_marks_def state_sum_def streams_parts_append
        streams_parts_single entries_pairs_Cons entries_marks_Cons pairs_marks_append
        pairs_sum_append pairs_sum_part)
qed

text \<open>Taking a part of a part moves some of its marks to a new stream.\<close>

lemma follows_partial:
  assumes "reader mk" and "\<forall>e \<in> set ((part, marks) # rest). sound_entry e"
    and "wf_ranges rs'" and "marks_in_ranges rs' = marks - n" and "marks_in_ranges new = n"
    and "ranges_marks new @ ranges_marks rs' = ranges_marks (ranges part)" and "n < marks"
  shows "follows ((part\<lparr>ranges := rs'\<rparr>, marks - n) # rest,
                  streams @ [mk (data_part part) new])
           ((part, marks) # rest, streams)"
proof -
  let ?p = "data_part part"
  have s: "stream_parts (mk ?p new) = map (Pair ?p) new"
    using assms(1) by (simp add: reader_def)
  have "mset (map (Pair ?p) (ranges_marks rs')) + mset (map (Pair ?p) (ranges_marks new))
      = mset (map (Pair ?p) (ranges_marks (ranges part)))"
    unfolding assms(6) [symmetric] by simp
  then have marks: "state_marks ((part\<lparr>ranges := rs'\<rparr>, marks - n) # rest,
                  streams @ [mk ?p new]) = state_marks ((part, marks) # rest, streams)"
    by (simp add: state_marks_def streams_parts_append streams_parts_single s
        entries_pairs_Cons pairs_marks_append pairs_marks_part)
  have sum: "state_sum ((part\<lparr>ranges := rs'\<rparr>, marks - n) # rest,
                  streams @ [mk ?p new]) = state_sum ((part, marks) # rest, streams)"
    using assms(5,7)
    by (simp add: state_sum_def streams_parts_append streams_parts_single s
        entries_marks_Cons pairs_sum_append pairs_sum_part)
  have sound: "\<forall>e \<in> set ((part\<lparr>ranges := rs'\<rparr>, marks - n) # rest). sound_entry e"
    using assms(2,3,4) by (simp add: sound_entry_def)
  show ?thesis
    unfolding follows_def using marks sum sound assms(7) by simp
qed

lemma worker_loop_ok:
  "reader mk \<Longrightarrow> \<forall>e \<in> set parts. sound_entry e \<Longrightarrow>
   \<exists>after. worker_loop c mk need parts streams = Inr after \<and> follows after (parts, streams) \<and>
     (fst after = [] \<or> entries_marks (fst after) + need \<le> entries_marks parts)"
proof (induction c mk need parts streams rule: worker_loop.induct)
  case (1 c mk need parts streams)
  have stay: "\<exists>after. worker_loop c mk need parts streams = Inr after \<and>
       follows after (parts, streams) \<and>
       (fst after = [] \<or> entries_marks (fst after) + need \<le> entries_marks parts)"
    if "parts = [] \<or> need = 0"
  proof -
    have "worker_loop c mk need parts streams = Inr (parts, streams)"
      using that by (subst worker_loop.simps) (auto split: list.splits)
    moreover have "follows (parts, streams) (parts, streams)"
      using "1.prems"(2) by (intro follows_refl) simp
    ultimately show ?thesis using that by auto
  qed
  show ?case
  proof (cases "parts = [] \<or> need = 0")
    case True
    then show ?thesis by (rule stay)
  next
    case False
    then obtain e rest where Cons: "parts = e # rest" and need: "need \<noteq> 0"
      by (cases parts) auto
    obtain part marks where e: "(part, marks) = e" by (cases e) auto
    define need1 where "need1 = (if c \<le> marks \<and> need < c then c else need)"
    define need2 where "need2 = (if need1 < marks \<and> size_sub marks need1 < c then marks else need1)"
    have ge: "need \<le> need2" by (auto simp: need1_def need2_def)
    have sound: "\<forall>e \<in> set ((part, marks) # rest). sound_entry e"
      using "1.prems"(2) Cons e by simp
    show ?thesis
    proof (cases "marks \<le> need2")
      case True
      let ?streams = "streams @ [mk (data_part part) (ranges part)]"
      have unfold: "worker_loop c mk need parts streams
          = worker_loop c mk (size_sub need2 marks) rest ?streams"
        using need True
        by (subst worker_loop.simps)
          (simp add: Cons e [symmetric] need1_def [symmetric] need2_def [symmetric] vector_of_def)
      have "\<forall>e \<in> set rest. sound_entry e" using sound by simp
      from "1.IH"(1) [OF Cons e need need1_def need2_def True "1.prems"(1), unfolded vector_of_def rev_rev_ident, OF this]
      obtain after where after: "worker_loop c mk (size_sub need2 marks) rest ?streams = Inr after"
        "follows after (rest, ?streams)"
        "fst after = [] \<or> entries_marks (fst after) + size_sub need2 marks \<le> entries_marks rest"
        by blast
      have "follows (rest, ?streams) ((part, marks) # rest, streams)"
        by (rule follows_whole [OF "1.prems"(1) sound])
      with after(2) have "follows after (parts, streams)"
        using Cons e by (auto intro: follows_trans)
      moreover have "fst after = [] \<or> entries_marks (fst after) + need \<le> entries_marks parts"
        using after(3) ge True by (auto simp: Cons e [symmetric] entries_marks_Cons size_sub_le)
      ultimately show ?thesis using unfold after(1) by auto
    next
      case False
      then have lt: "need2 < marks" by simp
      have wf: "wf_ranges (ranges part)" and m: "marks = marks_in_ranges (ranges part)"
        using sound by (simp_all add: sound_entry_def)
      from take_ranges_ok [OF wf _ m, of need2 "[]"] lt m
      obtain rs' new where T: "take_ranges need2 (ranges part) marks [] = Inr (0, rs', marks - need2, new)"
        "wf_ranges rs'" "marks_in_ranges rs' = marks - need2" "marks_in_ranges new = need2"
        "ranges_marks new @ ranges_marks rs' = ranges_marks (ranges part)"
        by auto
      let ?after = "((part\<lparr>ranges := rs'\<rparr>, marks - need2) # rest,
          streams @ [mk (data_part part) new])"
      have "worker_loop c mk need parts streams = worker_loop c mk 0 (fst ?after) (snd ?after)"
        using need False
        by (subst worker_loop.simps)
          (simp add: Cons e [symmetric] need1_def [symmetric] need2_def [symmetric] T(1))
      also have "\<dots> = Inr ?after" by (subst worker_loop.simps) simp
      finally have run: "worker_loop c mk need parts streams = Inr ?after" .
      have "follows ?after ((part, marks) # rest, streams)"
        by (rule follows_partial [OF "1.prems"(1) sound T(2,3,4,5) lt])
      moreover have "entries_marks (fst ?after) + need \<le> entries_marks parts"
        using ge lt by (simp add: Cons e [symmetric] entries_marks_Cons)
      ultimately show ?thesis using run Cons e by auto
    qed
  qed
qed

text \<open>A worker's streams enter the result as one stream that reads the same.\<close>

lemma stream_parts_combine:
  "streams_parts [if length streams = 1 then streams ! 0 else ConcatBlockInputStream streams]
     = streams_parts streams"
proof (cases "length streams = 1")
  case True
  then obtain s where "streams = [s]" by (cases streams) auto
  then show ?thesis by (simp add: streams_parts_def)
next
  case False
  then show ?thesis by (simp add: streams_parts_def)
qed

lemma follows_worker:
  assumes "follows (parts', streams) (parts, [])"
  shows "follows (parts', res @ [if length streams = 1 then streams ! 0
                                 else ConcatBlockInputStream streams]) (parts, res)"
proof -
  have "streams_parts (res @ [if length streams = 1 then streams ! 0
                              else ConcatBlockInputStream streams])
      = streams_parts res @ streams_parts streams"
    unfolding streams_parts_append stream_parts_combine ..
  then show ?thesis
    using assms
    by (simp add: follows_def state_marks_def state_sum_def pairs_marks_append pairs_sum_append
        streams_parts_def pairs_marks_def pairs_sum_def)
qed

lemma spread_loop_ok:
  "reader mk \<Longrightarrow> \<forall>e \<in> set parts. sound_entry e \<Longrightarrow>
   \<exists>after. spread_loop c mk m threads i parts res = Inr after \<and> follows after (parts, res) \<and>
     (parts = [] \<longrightarrow> fst after = []) \<and>
     (fst after = [] \<or> entries_marks (fst after) + (threads - i) * m \<le> entries_marks parts)"
proof (induction c mk m threads i parts res rule: spread_loop.induct)
  case (1 c mk m threads i parts res)
  show ?case
  proof (cases "i < threads \<and> parts \<noteq> []")
    case False
    have "spread_loop c mk m threads i parts res = Inr (parts, res)"
      using False by (subst spread_loop.simps) auto
    moreover have "follows (parts, res) (parts, res)"
      using "1.prems"(2) by (intro follows_refl) simp
    ultimately show ?thesis using False by auto
  next
    case True
    from worker_loop_ok [OF "1.prems", of c m "[]"]
    obtain parts' streams where W: "worker_loop c mk m parts [] = Inr (parts', streams)"
      "follows (parts', streams) (parts, [])"
      "parts' = [] \<or> entries_marks parts' + m \<le> entries_marks parts"
      by auto
    let ?res = "res @ [if length streams = 1 then streams ! 0 else ConcatBlockInputStream streams]"
    have unfold: "spread_loop c mk m threads i parts res
        = spread_loop c mk m threads (i + 1) parts' ?res"
      using True by (subst spread_loop.simps) (simp add: W(1))
    have sound': "\<forall>e \<in> set parts'. sound_entry e" using W(2) by (simp add: follows_def)
    from "1.IH" [OF True W(1) refl "1.prems"(1) sound']
    obtain after where A: "spread_loop c mk m threads (i + 1) parts' ?res = Inr after"
      "follows after (parts', ?res)" "parts' = [] \<longrightarrow> fst after = []"
      "fst after = [] \<or> entries_marks (fst after) + (threads - (i + 1)) * m \<le> entries_marks parts'"
      by blast
    have "follows (parts', ?res) (parts, res)" by (rule follows_worker [OF W(2)])
    with A(2) have F: "follows after (parts, res)" by (rule follows_trans)
    have "fst after = [] \<or> entries_marks (fst after) + (threads - i) * m \<le> entries_marks parts"
    proof (cases "fst after = []")
      case False
      then have 1: "entries_marks (fst after) + (threads - (i + 1)) * m \<le> entries_marks parts'"
        and 2: "entries_marks parts' + m \<le> entries_marks parts"
        using A(3,4) W(3) by auto
      have "(threads - i) * m = (threads - (i + 1)) * m + m"
        using True by (simp add: Suc_diff_Suc [symmetric] del: Suc_diff_Suc)
      then show ?thesis using 1 2 by simp
    qed simp
    then show ?thesis using unfold A(1) F True by auto
  qed
qed

lemma marks_in_ranges_rev: "marks_in_ranges (rev rs) = marks_in_ranges rs"
  by (simp add: marks_in_ranges_def rev_map [symmetric] flip: sum_mset_sum_list)

lemma input_marks_mset:
  "mset (pairs_marks (input_parts xs))
     = (\<Sum>p \<in># mset xs. mset (pairs_marks (map (Pair (data_part p)) (ranges p))))"
  by (induction xs) (simp_all add: input_parts_def pairs_marks_append pairs_marks_def)

lemma pairs_sum_Nil: "pairs_sum [] = 0"
  by (simp add: pairs_sum_def)

lemma input_sum_mset:
  "pairs_sum (input_parts xs) = (\<Sum>p \<in># mset xs. marks_in_ranges (ranges p))"
  by (induction xs) (simp_all add: input_parts_def pairs_sum_append pairs_sum_part pairs_sum_Nil)

lemma input_marks_perm:
  "mset xs = mset ys \<Longrightarrow>
   mset (pairs_marks (input_parts xs)) = mset (pairs_marks (input_parts ys))"
  by (simp add: input_marks_mset)

lemma input_sum_perm: "mset xs = mset ys \<Longrightarrow> pairs_sum (input_parts xs) = pairs_sum (input_parts ys)"
  by (simp add: input_sum_mset)

lemma wf_length_marks: "wf_ranges rs \<Longrightarrow> length (ranges_marks rs) = marks_in_ranges rs"
  by (induction rs)
    (simp_all add: wf_ranges_def ranges_marks_def range_marks_def marks_in_ranges_Cons size_sub_le)

lemma pairs_marks_length:
  "\<forall>pr \<in> set prs. range_begin (snd pr) \<le> range_end (snd pr) \<Longrightarrow>
   length (pairs_marks prs) = pairs_sum prs"
  by (induction prs)
    (auto simp: pairs_marks_def pairs_sum_def range_marks_def size_sub_le)

lemma entries_of_pairs: "entries_pairs (rev (entries_of xs)) = input_parts (rev xs)"
  by (simp add: entries_pairs_def entries_of_def rev_map comp_def)

lemma entries_of_marks: "entries_marks (rev (entries_of xs)) = pairs_sum (input_parts xs)"
proof -
  have "entries_marks (rev (entries_of xs)) = (\<Sum>p \<in># mset xs. marks_in_ranges (ranges p))"
    by (simp add: entries_marks_def entries_of_def rev_map [symmetric] comp_def
        flip: sum_mset_sum_list)
  then show ?thesis by (simp add: input_sum_mset)
qed

lemma entries_of_sound:
  "\<forall>p \<in> set xs. wf_ranges (ranges p) \<Longrightarrow> \<forall>e \<in> set (rev (entries_of xs)). sound_entry e"
  by (auto simp: entries_of_def sound_entry_def)

lemma reader_part_stream: "reader (part_stream d bs cols cache pa pc)"
  by (simp add: reader_def part_stream_def)

lemma spread_unfold:
  "spreadMarkRangesAmongThreads env ex parts threads cols bs cache pa pc =
     (if pairs_sum (input_parts (random_shuffle env parts)) > 0
      then
        if threads = 0 then None
        else
          (case spread_loop (min_marks_for_concurrent_read ex)
                  (part_stream (data ex) bs cols
                     (if pairs_sum (input_parts (random_shuffle env parts))
                           > max_marks_to_use_cache ex
                      then False else cache) pa pc)
                  (size_sub (pairs_sum (input_parts (random_shuffle env parts))) 1 div threads
                     + 1)
                  threads 0 (rev (entries_of (random_shuffle env parts))) [] of
             Inl e \<Rightarrow> Some (Inl e)
           | Inr (parts', res) \<Rightarrow>
               if parts' \<noteq> [] then Some (Inl LOGICAL_ERROR) else Some (Inr res))
      else Some (Inr []))"
proof -
  have 1: "map (\<lambda>p. (p\<lparr>ranges := stack_of (rev (ranges p))\<rparr>, marks_in_ranges (rev (ranges p))))
      (random_shuffle env parts) = entries_of (random_shuffle env parts)"
    by (simp add: entries_of_def stack_of_def marks_in_ranges_rev)
  have 2: "sum_list (map snd (entries_of (random_shuffle env parts)))
      = pairs_sum (input_parts (random_shuffle env parts))"
    using entries_of_marks [of "random_shuffle env parts"]
    by (simp add: entries_marks_def rev_map [symmetric] flip: sum_mset_sum_list)
  show ?thesis
    unfolding spreadMarkRangesAmongThreads_def Let_def
    unfolding 1
    unfolding 2 stack_of_def ..
qed

lemma input_parts_wf:
  "\<forall>p \<in> set xs. wf_ranges (ranges p) \<Longrightarrow>
   \<forall>pr \<in> set (input_parts xs). range_begin (snd pr) \<le> range_end (snd pr)"
  by (auto simp: input_parts_def wf_ranges_def)

lemma spread_loop_start:
  assumes wf: "\<forall>p \<in> set parts. wf_ranges (ranges p)"
    and perm: "mset (random_shuffle env parts) = mset parts"
  shows "\<exists>left res. spread_loop c (part_stream d bs cols cache pa pc) m threads 0
             (rev (entries_of (random_shuffle env parts))) [] = Inr (left, res) \<and>
           (left = [] \<longrightarrow>
              mset (pairs_marks (streams_parts res)) = mset (pairs_marks (input_parts parts)) \<and>
              pairs_sum (streams_parts res) = pairs_sum (input_parts parts)) \<and>
           (left = [] \<or> entries_marks left + threads * m \<le> pairs_sum (input_parts parts)) \<and>
           ((\<forall>p \<in> set parts. 0 < marks_in_ranges (ranges p)) \<longrightarrow> (\<forall>e \<in> set left. 0 < snd e))"
proof -
  let ?xs = "random_shuffle env parts"
  let ?es = "rev (entries_of ?xs)"
  have set: "set ?xs = set parts" using perm by (rule mset_eq_setD)
  then have wf': "\<forall>p \<in> set ?xs. wf_ranges (ranges p)" using wf by simp
  from spread_loop_ok [OF reader_part_stream [of d bs cols cache pa pc]
      entries_of_sound [OF wf'], of c m threads 0 "[]"]
  obtain left res where L: "spread_loop c (part_stream d bs cols cache pa pc) m threads 0 ?es []
        = Inr (left, res)"
      "follows (left, res) (?es, [])"
      "left = [] \<or> entries_marks left + threads * m \<le> entries_marks ?es"
    by auto
  have marks: "mset (pairs_marks (entries_pairs ?es)) = mset (pairs_marks (input_parts parts))"
    unfolding entries_of_pairs by (rule input_marks_perm) (simp add: perm)
  have sum: "entries_marks ?es = pairs_sum (input_parts parts)"
    unfolding entries_of_marks by (rule input_sum_perm [OF perm])
  have A: "mset (pairs_marks (streams_parts res)) = mset (pairs_marks (input_parts parts)) \<and>
      pairs_sum (streams_parts res) = pairs_sum (input_parts parts)" if "left = []"
    using L(2) that marks sum
    by (simp add: follows_def state_marks_def state_sum_def entries_pairs_def input_parts_def
        entries_marks_def streams_parts_def pairs_marks_def pairs_sum_def)
  have P: "\<forall>e \<in> set left. 0 < snd e" if "\<forall>p \<in> set parts. 0 < marks_in_ranges (ranges p)"
  proof -
    have "\<forall>e \<in> set ?es. 0 < snd e" using that set by (auto simp: entries_of_def)
    then show ?thesis using L(2) by (simp add: follows_def)
  qed
  show ?thesis using L(1,3) A P sum by auto
qed

lemma spread_accounts:
  assumes wf: "\<forall>p \<in> set parts. wf_ranges (ranges p)"
    and perm: "mset (random_shuffle env parts) = mset parts"
    and run: "spreadMarkRangesAmongThreads env ex parts threads cols bs cache pa pc
                = Some (Inr res)"
  shows "mset (pairs_marks (streams_parts res)) = mset (pairs_marks (input_parts parts)) \<and>
         pairs_sum (streams_parts res) = pairs_sum (input_parts parts)"
proof -
  let ?S = "pairs_sum (input_parts (random_shuffle env parts))"
  have S: "?S = pairs_sum (input_parts parts)" by (rule input_sum_perm [OF perm])
  show ?thesis
  proof (cases "0 < ?S")
    case False
    then have res: "res = []" using run by (simp add: spread_unfold)
    have zero: "pairs_sum (input_parts parts) = 0" using False S by simp
    then have "length (pairs_marks (input_parts parts)) = 0"
      using pairs_marks_length [OF input_parts_wf [OF wf]] by simp
    then have "pairs_marks (input_parts parts) = []" by simp
    moreover have "streams_parts [] = []" by (simp add: streams_parts_def)
    moreover have "pairs_marks [] = []" by (simp add: pairs_marks_def)
    ultimately show ?thesis using res zero by (simp add: pairs_sum_Nil)
  next
    case True
    let ?cache = "if ?S > max_marks_to_use_cache ex then False else cache"
    from spread_loop_start [OF wf perm, of "min_marks_for_concurrent_read ex" "data ex" bs cols
        ?cache pa pc "size_sub ?S 1 div threads + 1" threads]
    obtain left res' where L: "spread_loop (min_marks_for_concurrent_read ex)
          (part_stream (data ex) bs cols ?cache pa pc) (size_sub ?S 1 div threads + 1) threads 0
          (rev (entries_of (random_shuffle env parts))) [] = Inr (left, res')"
        "left = [] \<longrightarrow>
              mset (pairs_marks (streams_parts res')) = mset (pairs_marks (input_parts parts)) \<and>
              pairs_sum (streams_parts res') = pairs_sum (input_parts parts)"
      by blast
    have "left = [] \<and> res' = res"
      using run True L(1) by (simp add: spread_unfold split: if_splits)
    then show ?thesis using L(2) by simp
  qed
qed

lemma threads_cover: "0 < threads \<Longrightarrow> 0 < S \<Longrightarrow> S \<le> threads * (size_sub S 1 div threads + 1)"
proof -
  assume t: "0 < threads" and s: "0 < (S::nat)"
  have "S - 1 = threads * ((S - 1) div threads) + (S - 1) mod threads" by simp
  moreover have "(S - 1) mod threads < threads" using t by simp
  ultimately have "S - 1 < threads * ((S - 1) div threads) + threads" by linarith
  then show ?thesis using s by (simp add: size_sub_le)
qed

lemma spread_returns:
  assumes wf: "\<forall>p \<in> set parts. wf_ranges (ranges p)"
    and perm: "mset (random_shuffle env parts) = mset parts"
    and threads: "0 < threads"
    and marks: "\<forall>p \<in> set parts. 0 < marks_in_ranges (ranges p)"
  shows "\<exists>res. spreadMarkRangesAmongThreads env ex parts threads cols bs cache pa pc
                = Some (Inr res)"
proof -
  let ?S = "pairs_sum (input_parts (random_shuffle env parts))"
  have S: "?S = pairs_sum (input_parts parts)" by (rule input_sum_perm [OF perm])
  show ?thesis
  proof (cases "0 < ?S")
    case False
    then show ?thesis by (simp add: spread_unfold)
  next
    case True
    let ?cache = "if ?S > max_marks_to_use_cache ex then False else cache"
    let ?m = "size_sub ?S 1 div threads + 1"
    from spread_loop_start [OF wf perm, of "min_marks_for_concurrent_read ex" "data ex" bs cols
        ?cache pa pc ?m threads] marks
    obtain left res where L: "spread_loop (min_marks_for_concurrent_read ex)
          (part_stream (data ex) bs cols ?cache pa pc) ?m threads 0
          (rev (entries_of (random_shuffle env parts))) [] = Inr (left, res)"
        "left = [] \<or> entries_marks left + threads * ?m \<le> ?S"
        "\<forall>e \<in> set left. 0 < snd e"
      unfolding S by blast
    have "left = []"
    proof (rule ccontr)
      assume ne: "left \<noteq> []"
      then have "entries_marks left + threads * ?m \<le> ?S" using L(2) by simp
      moreover have "?S \<le> threads * ?m" by (rule threads_cover [OF threads True])
      ultimately have "entries_marks left = 0" by simp
      moreover have "0 < entries_marks left"
        using ne L(3) by (cases left) (auto simp: entries_marks_Cons)
      ultimately show False by simp
    qed
    then show ?thesis using True threads L(1) by (simp add: spread_unfold)
  qed
qed

subsection \<open>Results on the normal spreader\<close>

text \<open>
  C2, as stated, fails: with two workers a single part of ten marks in one range is read by
  both, and the cut, at mark 5, is inside its range, not at a range boundary.
\<close>

theorem part_split_between_workers:
  "spreadMarkRangesAmongThreads example_env (example_executor [])
       [\<lparr>data_part = example_part ''a'' 10, ranges = [MarkRange 0 10]\<rparr>] 2 [''k''] 100 True None []
     = Some (Inr
         [MergeTreeBlockInputStream ''/a/'' 100 [''k''] (example_part ''a'' 10) [MarkRange 0 5]
            True None [],
          MergeTreeBlockInputStream ''/a/'' 100 [''k''] (example_part ''a'' 10) [MarkRange 5 10]
            True None []])
   \<and> workers_reading (example_part ''a'' 10)
         [MergeTreeBlockInputStream ''/a/'' 100 [''k''] (example_part ''a'' 10) [MarkRange 0 5]
            True None [],
          MergeTreeBlockInputStream ''/a/'' 100 [''k''] (example_part ''a'' 10) [MarkRange 5 10]
            True None []] = 2"
  by code_simp

text \<open>
  C2, amended: when the spreader returns its streams (on ranges that do not end before they
  begin, shuffled into any order), the sum of \<open>end - begin\<close> over all the ranges of all the
  streams is the input's, and every mark of every part is read exactly once. A part may
  be divided among several workers; the cuts are between whole marks.
\<close>

theorem spreader_reads_every_mark_once:
  assumes "\<forall>p \<in> set parts. \<forall>r \<in> set (ranges p). range_begin r \<le> range_end r"
    and "mset (random_shuffle env parts) = mset parts"
    and "spreadMarkRangesAmongThreads env ex parts threads column_names max_block_size
           use_uncompressed_cache prewhere_actions prewhere_column = Some (Inr res)"
  shows "pairs_sum (streams_parts res) = pairs_sum (input_parts parts) \<and>
         mset (pairs_marks (streams_parts res)) = mset (pairs_marks (input_parts parts))"
proof -
  have "\<forall>p \<in> set parts. wf_ranges (ranges p)" using assms(1) by (simp add: wf_ranges_def)
  from spread_accounts [OF this assms(2,3)] show ?thesis by simp
qed

theorem spreader_reads_every_mark_once_witness:
  "spreadMarkRangesAmongThreads example_env (example_executor [])
       [\<lparr>data_part = example_part ''a'' 10, ranges = [MarkRange 0 10]\<rparr>,
        \<lparr>data_part = example_part ''b'' 4, ranges = [MarkRange 0 4]\<rparr>] 2 [''k''] 100 True None []
     = Some (Inr
         [ConcatBlockInputStream
            [MergeTreeBlockInputStream ''/b/'' 100 [''k''] (example_part ''b'' 4) [MarkRange 0 4]
               True None [],
             MergeTreeBlockInputStream ''/a/'' 100 [''k''] (example_part ''a'' 10) [MarkRange 0 3]
               True None []],
          MergeTreeBlockInputStream ''/a/'' 100 [''k''] (example_part ''a'' 10) [MarkRange 3 10]
            True None []])
   \<and> pairs_sum
        [(example_part ''b'' 4, MarkRange 0 4), (example_part ''a'' 10, MarkRange 0 3),
         (example_part ''a'' 10, MarkRange 3 10)]
      = pairs_sum [(example_part ''a'' 10, MarkRange 0 10), (example_part ''b'' 4, MarkRange 0 4)]"
proof -
  let ?parts = "[\<lparr>data_part = example_part ''a'' 10, ranges = [MarkRange 0 10]\<rparr>,
        \<lparr>data_part = example_part ''b'' 4, ranges = [MarkRange 0 4]\<rparr>]"
  let ?res = "[ConcatBlockInputStream
            [MergeTreeBlockInputStream ''/b/'' 100 [''k''] (example_part ''b'' 4) [MarkRange 0 4]
               True None [],
             MergeTreeBlockInputStream ''/a/'' 100 [''k''] (example_part ''a'' 10) [MarkRange 0 3]
               True None []],
          MergeTreeBlockInputStream ''/a/'' 100 [''k''] (example_part ''a'' 10) [MarkRange 3 10]
            True None []]"
  have run: "spreadMarkRangesAmongThreads example_env (example_executor []) ?parts 2 [''k''] 100
      True None [] = Some (Inr ?res)"
    by code_simp
  have wf: "\<forall>p \<in> set ?parts. \<forall>r \<in> set (ranges p). range_begin r \<le> range_end r" by simp
  have perm: "mset (random_shuffle example_env ?parts) = mset ?parts"
    by (simp add: example_env_def)
  from spreader_reads_every_mark_once [OF wf perm run] run
  show ?thesis by (simp add: streams_parts_def input_parts_def)
qed

text \<open>
  The spreader returns its streams whenever every part has at least one mark: neither
  logical error is raised then.
\<close>

lemma spreader_returns_when_every_part_has_marks:
  assumes "\<forall>p \<in> set parts. \<forall>r \<in> set (ranges p). range_begin r \<le> range_end r"
    and "mset (random_shuffle env parts) = mset parts"
    and "0 < threads"
    and "\<forall>p \<in> set parts. 0 < marks_in_ranges (ranges p)"
  shows "\<exists>res. spreadMarkRangesAmongThreads env ex parts threads column_names max_block_size
           use_uncompressed_cache prewhere_actions prewhere_column = Some (Inr res)"
proof -
  have "\<forall>p \<in> set parts. wf_ranges (ranges p)" using assms(1) by (simp add: wf_ranges_def)
  from spread_returns [OF this assms(2,3,4)] show ?thesis .
qed

text \<open>
  C7: a part without marks that is not on top of the stack is left over when the marks of
  the others have been handed out, and the spreader raises its second logical error. The
  planner passes such a part on when the index of a part is empty and the condition is
  always true.
\<close>

theorem logical_error_is_reached:
  "spreadMarkRangesAmongThreads example_env (example_executor [])
       [\<lparr>data_part = example_part ''e'' 0, ranges = [MarkRange 0 0]\<rparr>,
        \<lparr>data_part = example_part ''a'' 3, ranges = [MarkRange 0 3]\<rparr>] 1 [''k''] 100 True None []
     = Some (Inl LOGICAL_ERROR)
   \<and> read example_env (example_executor [example_part ''e'' 0, example_part ''a'' 3]) [''k'']
         plain_query every_key every_key True 100 1
     = Some (Inl LOGICAL_ERROR)"
  by code_simp

section \<open>The FINAL spreader and the entry point: proofs\<close>

subsection \<open>Errors of the spreader\<close>





subsection \<open>The entry point after the sampling block\<close>

lemma read_check:
  "check (data ex) cols = Some e \<Longrightarrow> read env ex cols select kc dc cache bs threads = Some (Inl e)"
  by (simp add: read_def)

lemma read_sampling:
  "check (data ex) cols = None \<Longrightarrow>
   read env ex cols select kc dc cache bs threads =
     (case sampling env ex select kc (select_parts dc (data_parts (data ex))) cols of
        None \<Rightarrow> None
      | Some (Inl e) \<Rightarrow> Some (Inl e)
      | Some (Inr s) \<Rightarrow>
          (case parts_with_ranges ex (key_condition_of s)
                  (select_parts dc (data_parts (data ex))) of
             None \<Rightarrow> None
           | Some with_ranges \<Rightarrow>
               if final select
               then Some (Inr (sample_filter env s
                      (spreadMarkRangesAmongThreadsFinal env ex with_ranges threads
                         (sort_unique
                            (column_names_to_read s
                               @ getRequiredColumns env (primary_expression (data ex))
                               @ [sign_column (data ex)]))
                         bs cache (map_option ExpressionActions (prewhere_expression select))
                         (case prewhere_expression select of
                            None \<Rightarrow> [] | Some e \<Rightarrow> getColumnName env e))))
               else
                 (case spreadMarkRangesAmongThreads env ex with_ranges threads
                         (column_names_to_read s) bs cache
                         (map_option ExpressionActions (prewhere_expression select))
                         (case prewhere_expression select of
                            None \<Rightarrow> [] | Some e \<Rightarrow> getColumnName env e) of
                    None \<Rightarrow> None
                  | Some (Inl e) \<Rightarrow> Some (Inl e)
                  | Some (Inr res) \<Rightarrow> Some (Inr (sample_filter env s res)))))"
  unfolding read_def Let_def by simp












text \<open>
  The cutoff of the sample enters the key condition and the filter as one value, the one that
  line 105 computes from the relative size and the largest value of the column.
\<close>

lemma sampling_limit_shared:
  assumes "sample_size select = Some s0"
    and "sampling env ex select kc selected cols = Some (Inr s)"
  shows "\<exists>size1 column_max.
           relative_sample_size env ex kc selected s0 = Some size1 \<and>
           sampling_column_max (sampling_column_type (data ex)) = Inr column_max \<and>
           column_value_limit size1 column_max = Some (sampling_column_value_limit s) \<and>
           key_condition_of s
             = snd (addCondition env kc (getColumnName env (sampling_expression (data ex)))
                      (RightBounded (UInt64 (sampling_column_value_limit s)) True)) \<and>
           filter_function s
             = Some (ASTFunction ''lessOrEquals''
                       [sampling_expression (data ex),
                        ASTLiteral (UInt64 (sampling_column_value_limit s))])"
  using assms
  by (auto simp: sampling_def Let_def split: option.splits sum.splits if_splits)

text \<open>The executor of the small table is the one that the constructor builds.\<close>

lemma example_executor_made: "make_executor (example_data ps) = Some (example_executor ps)"
  by (simp add: make_executor_def example_data_def example_executor_def size_sub_def
      size_add_def)

lemma keyed_executor_made: "make_executor keyed_data = Some keyed_executor"
  by (simp add: make_executor_def keyed_data_def keyed_executor_def example_data_def
      size_sub_def size_add_def)

text \<open>
  The sum of the constructor wraps: with 2000 rows per mark and the largest \<^verbatim>\<open>size_t\<close> as
  \<open>min_rows_for_seek\<close> the threshold \<open>min_marks_for_seek\<close> is zero.
\<close>

lemma constructor_wraps:
  "map_option min_marks_for_seek
     (make_executor (keyed_data\<lparr>settings := (settings keyed_data)\<lparr>min_rows_for_seek := 2 ^ 64 - 1\<rparr>\<rparr>))
   = Some 0"
  by (simp add: make_executor_def keyed_data_def example_data_def size_sub_def size_add_def)

subsection \<open>Results on the entry point and the FINAL spreader\<close>

text \<open>The fields of a query with a sample clause.\<close>

lemma sample_query_fields:
  "sample_size (sample_query s) = Some s"
  "prewhere_expression (sample_query s) = None"
  "final (sample_query s) = False"
  by (simp_all add: sample_query_def plain_query_def)

text \<open>
  For a sampling column of 8, 16 or 32 bits the cast of the cutoff is always defined; it can
  only be undefined on a \<open>UInt64\<close> column.
\<close>

lemma narrow_column_cutoff_defined:
  assumes "0 \<le> s" and "relative_sample_size env ex kc selected s = Some size1"
    and "sampling_column_max t = Inr column_max" and "t \<noteq> ''UInt64''"
  shows "column_value_limit size1 column_max \<noteq> None"
proof (rule narrow_cutoff_defined)
  show "0 \<le> size1" "size1 \<le> 1"
    using assms(1,2) relative_size_bounds
    by (auto simp: relative_sample_size_def split: if_splits option.splits)
  show "column_max < 2 ^ 32"
    using assms(3,4) by (auto simp: sampling_column_max_def split: if_splits)
qed

text \<open>
  C4: the cutoff is not always \<open>floor (relative * M)\<close>. Line 105 multiplies in \<^verbatim>\<open>double\<close>,
  and the largest value \<open>2 ^ 64 - 1\<close> of a \<open>UInt64\<close> column is rounded to \<open>2 ^ 64\<close> on
  the way. With a sample size of one half on such a column the planner puts the cutoff
  \<open>2 ^ 63\<close> into the filter, where \<open>floor (1 / 2 * (2 ^ 64 - 1))\<close> is \<open>2 ^ 63 - 1\<close>; with a
  sample size of one the product is \<open>2 ^ 64\<close>, whose cast to \<^verbatim>\<open>UInt64\<close> is undefined, and the
  planner yields nothing.
\<close>

theorem cutoff_on_uint64_column:
  "read example_env (with_sampling_type ''UInt64'' (example_executor [example_part ''a'' 3]))
       [''k''] (sample_query (1 / 2)) every_key every_key True 100 1
     = Some (Inr
         [FilterBlockInputStream
            (ExpressionBlockInputStream
               (MergeTreeBlockInputStream ''/a/'' 100 [''k''] (example_part ''a'' 3)
                  [MarkRange 0 3] True None [])
               (ExpressionActions
                  (ASTFunction ''lessOrEquals''
                     [ASTIdentifier ''k'', ASTLiteral (UInt64 (2 ^ 63))])))
            ''lessOrEquals''])
   \<and> nat \<lfloor>1 / 2 * real (2 ^ 64 - 1)\<rfloor> = 2 ^ 63 - 1
   \<and> read example_env (with_sampling_type ''UInt64'' (example_executor [example_part ''a'' 3]))
       [''k''] (sample_query 1) every_key every_key True 100 1 = None"
proof -
  let ?ex = "with_sampling_type ''UInt64'' (example_executor [example_part ''a'' 3])"
  let ?a = "example_part ''a'' 3"
  let ?f = "ASTFunction ''lessOrEquals'' [ASTIdentifier ''k'', ASTLiteral (UInt64 (2 ^ 63))]"
  let ?S = "\<lparr>key_condition_of = every_key, column_names_to_read = [''k''],
             sampling_column_value_limit = 2 ^ 63, filter_function = Some ?f,
             filter_expression = Some (ExpressionActions ?f)\<rparr>"
  have chk: "check (data ?ex) [''k''] = None" by code_simp
  have sel: "select_parts every_key (data_parts (data ?ex)) = [?a]" by code_simp
  have type: "sampling_column_max (sampling_column_type (data ?ex)) = Inr (2 ^ 64 - 1)"
    by (simp add: with_sampling_type_def sampling_column_max_def)
  have expr: "sampling_expression (data ?ex) = ASTIdentifier ''k''"
    by (simp add: with_sampling_type_def example_executor_def example_data_def)
  have half: "column_value_limit (1 / 2) (2 ^ 64 - 1) = Some (2 ^ 63)"
    by (simp add: double_defs)
  have one: "column_value_limit 1 (2 ^ 64 - 1) = None"
    by (simp add: double_defs)
  have s: "sampling example_env ?ex (sample_query (1 / 2)) every_key [?a] [''k''] = Some (Inr ?S)"
    using half
    by (simp add: sampling_def sample_query_fields relative_sample_size_def type expr
        example_env_def sort_unique_def Let_def)
  have s1: "sampling example_env ?ex (sample_query 1) every_key [?a] [''k''] = None"
    using one by (simp add: sampling_def sample_query_fields relative_sample_size_def type)
  have W: "parts_with_ranges ?ex every_key [?a] = Some [\<lparr>data_part = ?a, ranges = [MarkRange 0 3]\<rparr>]"
    by code_simp
  have sp: "spreadMarkRangesAmongThreads example_env ?ex
      [\<lparr>data_part = ?a, ranges = [MarkRange 0 3]\<rparr>] 1 [''k''] 100 True None []
      = Some (Inr [MergeTreeBlockInputStream ''/a/'' 100 [''k''] ?a [MarkRange 0 3] True None []])"
    by code_simp
  have name: "getColumnName example_env ?f = ''lessOrEquals''" by (simp add: example_env_def)
  have 1: "read example_env ?ex [''k''] (sample_query (1 / 2)) every_key every_key True 100 1
     = Some (Inr
         [FilterBlockInputStream
            (ExpressionBlockInputStream
               (MergeTreeBlockInputStream ''/a/'' 100 [''k''] ?a [MarkRange 0 3] True None [])
               (ExpressionActions ?f))
            ''lessOrEquals''])"
    using W sp name
    by (simp add: read_sampling [OF chk] sel s sample_query_fields sample_filter_def
        del: parts_with_ranges.simps)
  have 2: "nat \<lfloor>1 / 2 * real (2 ^ 64 - 1)\<rfloor> = 2 ^ 63 - 1" by simp
  have 3: "read example_env ?ex [''k''] (sample_query 1) every_key every_key True 100 1 = None"
    by (simp add: read_sampling [OF chk] sel s1)
  show ?thesis using 1 2 3 by blast
qed




text \<open>
  C5: the FINAL spreader returns, for exactly one part, the one stream
  \<open>Filter (Expression (s, sign = 1))\<close> over the stream \<open>s\<close> of that part and no collapsing
  merge; for two or more parts, exactly one \<open>CollapsingFinalBlockInputStream\<close> over the streams
  of all the parts, with the sort description and the sign column; for no part, nothing.
\<close>

theorem final_spreader_output:
  "(length parts = 1 \<longrightarrow>
      spreadMarkRangesAmongThreadsFinal env ex parts threads column_names max_block_size
          use_uncompressed_cache prewhere_actions prewhere_column
        = [FilterBlockInputStream
             (ExpressionBlockInputStream
                (ExpressionBlockInputStream
                   (part_stream (data ex) max_block_size column_names
                      (final_cache ex parts use_uncompressed_cache) prewhere_actions
                      prewhere_column (data_part (parts ! 0)) (ranges (parts ! 0)))
                   (primary_expression (data ex)))
                (ExpressionActions
                   (ASTFunction ''equals''
                      [ASTIdentifier (sign_column (data ex)), ASTLiteral (Int64 1)])))
             (getColumnName env
                (ASTFunction ''equals''
                   [ASTIdentifier (sign_column (data ex)), ASTLiteral (Int64 1)]))])
   \<and> (2 \<le> length parts \<longrightarrow>
      spreadMarkRangesAmongThreadsFinal env ex parts threads column_names max_block_size
          use_uncompressed_cache prewhere_actions prewhere_column
        = [CollapsingFinalBlockInputStream
             (map (\<lambda>part.
                     ExpressionBlockInputStream
                       (part_stream (data ex) max_block_size column_names
                          (final_cache ex parts use_uncompressed_cache) prewhere_actions
                          prewhere_column (data_part part) (ranges part))
                       (primary_expression (data ex)))
                parts)
             (sort_description (data ex)) (sign_column (data ex))])
   \<and> (parts = [] \<longrightarrow>
      spreadMarkRangesAmongThreadsFinal env ex parts threads column_names max_block_size
          use_uncompressed_cache prewhere_actions prewhere_column = [])"
proof (intro conjI impI)
  assume "length parts = 1"
  then obtain p where "parts = [p]" by (cases parts) auto
  then show "spreadMarkRangesAmongThreadsFinal env ex parts threads column_names max_block_size
          use_uncompressed_cache prewhere_actions prewhere_column
        = [FilterBlockInputStream
             (ExpressionBlockInputStream
                (ExpressionBlockInputStream
                   (part_stream (data ex) max_block_size column_names
                      (final_cache ex parts use_uncompressed_cache) prewhere_actions
                      prewhere_column (data_part (parts ! 0)) (ranges (parts ! 0)))
                   (primary_expression (data ex)))
                (ExpressionActions
                   (ASTFunction ''equals''
                      [ASTIdentifier (sign_column (data ex)), ASTLiteral (Int64 1)])))
             (getColumnName env
                (ASTFunction ''equals''
                   [ASTIdentifier (sign_column (data ex)), ASTLiteral (Int64 1)]))]"
    by (simp add: spreadMarkRangesAmongThreadsFinal_def createPositiveSignCondition_def
        final_cache_def Let_def)
next
  assume "2 \<le> length parts"
  then show "spreadMarkRangesAmongThreadsFinal env ex parts threads column_names max_block_size
          use_uncompressed_cache prewhere_actions prewhere_column
        = [CollapsingFinalBlockInputStream
             (map (\<lambda>part.
                     ExpressionBlockInputStream
                       (part_stream (data ex) max_block_size column_names
                          (final_cache ex parts use_uncompressed_cache) prewhere_actions
                          prewhere_column (data_part part) (ranges part))
                       (primary_expression (data ex)))
                parts)
             (sort_description (data ex)) (sign_column (data ex))]"
    by (simp add: spreadMarkRangesAmongThreadsFinal_def final_cache_def Let_def)
next
  assume "parts = []"
  then show "spreadMarkRangesAmongThreadsFinal env ex parts threads column_names max_block_size
          use_uncompressed_cache prewhere_actions prewhere_column = []"
    by (simp add: spreadMarkRangesAmongThreadsFinal_def Let_def)
qed

theorem final_spreader_output_witness:
  "spreadMarkRangesAmongThreadsFinal example_env (example_executor [])
       [\<lparr>data_part = example_part ''a'' 10, ranges = [MarkRange 0 10]\<rparr>] 4 [''k''] 100 True None []
     = [FilterBlockInputStream
          (ExpressionBlockInputStream
             (ExpressionBlockInputStream
                (MergeTreeBlockInputStream ''/a/'' 100 [''k''] (example_part ''a'' 10)
                   [MarkRange 0 10] True None [])
                (ExpressionActions (ASTIdentifier ''k'')))
             (ExpressionActions
                (ASTFunction ''equals'' [ASTIdentifier ''Sign'', ASTLiteral (Int64 1)])))
          ''equals'']
   \<and> spreadMarkRangesAmongThreadsFinal example_env (example_executor [])
       [\<lparr>data_part = example_part ''a'' 10, ranges = [MarkRange 0 10]\<rparr>,
        \<lparr>data_part = example_part ''b'' 4, ranges = [MarkRange 0 4]\<rparr>] 4 [''k''] 100 True None []
     = [CollapsingFinalBlockInputStream
          [ExpressionBlockInputStream
             (MergeTreeBlockInputStream ''/a/'' 100 [''k''] (example_part ''a'' 10)
                [MarkRange 0 10] True None [])
             (ExpressionActions (ASTIdentifier ''k'')),
           ExpressionBlockInputStream
             (MergeTreeBlockInputStream ''/b/'' 100 [''k''] (example_part ''b'' 4)
                [MarkRange 0 4] True None [])
             (ExpressionActions (ASTIdentifier ''k''))]
          [(''k'', 1)] ''Sign'']
   \<and> spreadMarkRangesAmongThreadsFinal example_env (example_executor []) [] 4 [''k''] 100 True
       None [] = []"
proof -
  let ?a = "\<lparr>data_part = example_part ''a'' 10, ranges = [MarkRange 0 10]\<rparr>"
  let ?b = "\<lparr>data_part = example_part ''b'' 4, ranges = [MarkRange 0 4]\<rparr>"
  note one = final_spreader_output [of "[?a]" example_env "example_executor []" 4 "[''k'']" 100
      True None "[]", THEN conjunct1]
  note two = final_spreader_output [of "[?a, ?b]" example_env "example_executor []" 4 "[''k'']"
      100 True None "[]", THEN conjunct2, THEN conjunct1]
  note zero = final_spreader_output [of "[]" example_env "example_executor []" 4 "[''k'']" 100
      True None "[]", THEN conjunct2, THEN conjunct2]
  show ?thesis
    using one two zero
    by (simp add: part_stream_def final_cache_def marks_in_ranges_def size_sub_def
        example_env_def example_executor_def example_data_def example_part_def)
qed

text \<open>
  C8: for a part with an empty index and a condition that is always true the pruner returns
  the one range \<open>[0, 0)\<close>, not the empty list; the part passes the test of line 155 and is
  read by a stream of the result, in FINAL mode and in normal mode.
\<close>

theorem empty_part_is_emitted:
  "markRangesFromPkRange 1 8 0 [] every_key = Some [MarkRange 0 0]
   \<and> read example_env (example_executor [example_part ''e'' 0]) [''k'']
         (plain_query\<lparr>final := True\<rparr>) every_key every_key True 100 1
     = Some (Inr
         [FilterBlockInputStream
            (ExpressionBlockInputStream
               (ExpressionBlockInputStream
                  (MergeTreeBlockInputStream ''/e/'' 100 [''Sign'', ''k''] (example_part ''e'' 0)
                     [MarkRange 0 0] True None [])
                  (ExpressionActions (ASTIdentifier ''k'')))
               (ExpressionActions
                  (ASTFunction ''equals'' [ASTIdentifier ''Sign'', ASTLiteral (Int64 1)])))
            ''equals''])
   \<and> read example_env (example_executor [example_part ''a'' 3, example_part ''e'' 0]) [''k'']
         plain_query every_key every_key True 100 1
     = Some (Inr
         [ConcatBlockInputStream
            [MergeTreeBlockInputStream ''/e/'' 100 [''k''] (example_part ''e'' 0)
               [MarkRange 0 0] True None [],
             MergeTreeBlockInputStream ''/a/'' 100 [''k''] (example_part ''a'' 3)
               [MarkRange 0 3] True None []]])"
  by code_simp

subsection \<open>What the streams of the planner read\<close>

lemma pruner_wf: "markRangesFromPkRange ks g mms idx c = Some rs \<Longrightarrow> wf_ranges rs"
  using pruner_ranges [of ks g mms idx c rs] by (simp add: wf_ranges_def)

lemma parts_with_ranges_wf:
  "parts_with_ranges ex kc ps = Some W \<Longrightarrow> \<forall>p \<in> set W. wf_ranges (ranges p)"
proof (induction ps arbitrary: W)
  case Nil
  then show ?case by simp
next
  case (Cons part ps)
  from Cons.prems obtain rs rest where rs: "part_mark_ranges ex part kc = Some rs"
    and rest: "parts_with_ranges ex kc ps = Some rest"
    and W: "W = (if rs \<noteq> [] then \<lparr>data_part = part, ranges = rs\<rparr> # rest else rest)"
    by (auto split: option.splits)
  have "wf_ranges rs" using rs by (auto simp: part_mark_ranges_def dest: pruner_wf)
  then show ?case using Cons.IH [OF rest] W by simp
qed

lemma sample_filter_parts: "streams_parts (sample_filter env s res) = streams_parts res"
  by (auto simp: sample_filter_def streams_parts_def comp_def split: option.splits
      intro!: arg_cong [where f = concat])

lemma final_parts:
  "streams_parts (spreadMarkRangesAmongThreadsFinal env ex W threads cols bs cache pa pc)
     = input_parts W"
proof -
  have "concat (map (\<lambda>part. stream_parts (ExpressionBlockInputStream
          (part_stream d bs cols c pa pc (data_part part) (ranges part)) pe)) W) = input_parts W"
    for d c pe
    by (simp add: input_parts_def part_stream_def)
  note all = this [of "data ex" "final_cache ex W cache" "primary_expression (data ex)"]
  have "W = [] \<or> (\<exists>p. W = [p]) \<or> 2 \<le> length W"
  proof (cases W)
    case (Cons p W')
    then show ?thesis by (cases W') simp_all
  qed simp
  then consider "W = []" | p where "W = [p]" | "2 \<le> length W" by blast
  then show ?thesis
  proof cases
    case 1
    then show ?thesis
      by (simp add: spreadMarkRangesAmongThreadsFinal_def Let_def streams_parts_def input_parts_def)
  next
    case 2
    then show ?thesis
      by (simp add: spreadMarkRangesAmongThreadsFinal_def Let_def streams_parts_def input_parts_def
          part_stream_def)
  next
    case 3
    then show ?thesis
      using all
      by (simp add: spreadMarkRangesAmongThreadsFinal_def Let_def streams_parts_def comp_def
          final_cache_def)
  qed
qed

text \<open>
  When the planner returns its streams, they read every mark of every range that the pruner
  selected, once.
\<close>

lemma read_marks:
  assumes run: "read env ex cols select kc dc cache bs threads = Some (Inr res)"
    and perm: "\<forall>ps. mset (random_shuffle env ps) = mset ps"
  shows "\<exists>s W. sampling env ex select kc (select_parts dc (data_parts (data ex))) cols
                 = Some (Inr s) \<and>
               parts_with_ranges ex (key_condition_of s) (select_parts dc (data_parts (data ex)))
                 = Some W \<and>
               mset (pairs_marks (streams_parts res)) = mset (pairs_marks (input_parts W))"
proof -
  let ?sel = "select_parts dc (data_parts (data ex))"
  have chk: "check (data ex) cols = None"
    using run by (cases "check (data ex) cols") (simp_all add: read_check)
  note run' = run [unfolded read_sampling [OF chk]]
  from run' obtain s where s: "sampling env ex select kc ?sel cols = Some (Inr s)"
    by (auto split: option.splits sum.splits)
  from run' s obtain W where W: "parts_with_ranges ex (key_condition_of s) ?sel = Some W"
    by (auto split: option.splits)
  have wf: "\<forall>p \<in> set W. wf_ranges (ranges p)" by (rule parts_with_ranges_wf [OF W])
  have "mset (pairs_marks (streams_parts res)) = mset (pairs_marks (input_parts W))"
  proof (cases "final select")
    case True
    then show ?thesis
      using run' s W by (auto simp: sample_filter_parts final_parts)
  next
    case False
    let ?pa = "map_option ExpressionActions (prewhere_expression select)"
    let ?pc = "case prewhere_expression select of None \<Rightarrow> [] | Some e \<Rightarrow> getColumnName env e"
    from run' s W False obtain inner
      where inner: "spreadMarkRangesAmongThreads env ex W threads (column_names_to_read s) bs cache
          ?pa ?pc = Some (Inr inner)" and res: "res = sample_filter env s inner"
      by (auto split: option.splits sum.splits)
    from spread_accounts [OF wf _ inner] perm
    show ?thesis by (simp add: res sample_filter_parts)
  qed
  then show ?thesis using s W by blast
qed

lemma sampling_shuffle:
  "sampling (env\<lparr>random_shuffle := sh\<rparr>) ex select kc sel cols = sampling env ex select kc sel cols"
  by (simp add: sampling_def relative_sample_size_def Let_def split: option.splits sum.splits)

text \<open>
  C10, as stated, fails: two runs on the same two parts whose shuffles differ cut part
  \<open>a\<close> at different marks; the pair of \<open>a\<close> and \<open>[0, 3)\<close> is read in one run and not in
  the other.
\<close>

theorem shuffles_change_the_ranges:
  "read example_env (example_executor [example_part ''a'' 10, example_part ''b'' 4]) [''k'']
       plain_query every_key every_key True 100 2
     = Some (Inr
         [ConcatBlockInputStream
            [MergeTreeBlockInputStream ''/b/'' 100 [''k''] (example_part ''b'' 4) [MarkRange 0 4]
               True None [],
             MergeTreeBlockInputStream ''/a/'' 100 [''k''] (example_part ''a'' 10) [MarkRange 0 3]
               True None []],
          MergeTreeBlockInputStream ''/a/'' 100 [''k''] (example_part ''a'' 10) [MarkRange 3 10]
            True None []])
   \<and> read (example_env\<lparr>random_shuffle := rev\<rparr>)
       (example_executor [example_part ''a'' 10, example_part ''b'' 4]) [''k'']
       plain_query every_key every_key True 100 2
     = Some (Inr
         [MergeTreeBlockInputStream ''/a/'' 100 [''k''] (example_part ''a'' 10) [MarkRange 0 7]
            True None [],
          ConcatBlockInputStream
            [MergeTreeBlockInputStream ''/a/'' 100 [''k''] (example_part ''a'' 10) [MarkRange 7 10]
               True None [],
             MergeTreeBlockInputStream ''/b/'' 100 [''k''] (example_part ''b'' 4) [MarkRange 0 4]
               True None []]])
   \<and> count_list
        (run_pairs
           (read example_env (example_executor [example_part ''a'' 10, example_part ''b'' 4])
              [''k''] plain_query every_key every_key True 100 2))
        (example_part ''a'' 10, MarkRange 0 3) = 1
   \<and> count_list
        (run_pairs
           (read (example_env\<lparr>random_shuffle := rev\<rparr>)
              (example_executor [example_part ''a'' 10, example_part ''b'' 4])
              [''k''] plain_query every_key every_key True 100 2))
        (example_part ''a'' 10, MarkRange 0 3) = 0"
  by code_simp

text \<open>
  C10, amended: two runs of the planner on the same inputs that both return their streams,
  whatever their shuffles, read the same multiset of pairs of a part and a mark.
\<close>

theorem runs_agree_on_marks:
  assumes "read (env\<lparr>random_shuffle := shuffle1\<rparr>) ex cols select kc dc cache bs threads
             = Some (Inr res1)"
    and "read (env\<lparr>random_shuffle := shuffle2\<rparr>) ex cols select kc dc cache bs threads
             = Some (Inr res2)"
    and "\<forall>ps. mset (shuffle1 ps) = mset ps" and "\<forall>ps. mset (shuffle2 ps) = mset ps"
  shows "mset (pairs_marks (streams_parts res1)) = mset (pairs_marks (streams_parts res2))"
proof -
  from read_marks [OF assms(1)] assms(3) obtain s1 W1
    where 1: "sampling env ex select kc (select_parts dc (data_parts (data ex))) cols
                 = Some (Inr s1)"
      "parts_with_ranges ex (key_condition_of s1) (select_parts dc (data_parts (data ex)))
                 = Some W1"
      "mset (pairs_marks (streams_parts res1)) = mset (pairs_marks (input_parts W1))"
    by (auto simp: sampling_shuffle)
  from read_marks [OF assms(2)] assms(4) obtain s2 W2
    where 2: "sampling env ex select kc (select_parts dc (data_parts (data ex))) cols
                 = Some (Inr s2)"
      "parts_with_ranges ex (key_condition_of s2) (select_parts dc (data_parts (data ex)))
                 = Some W2"
      "mset (pairs_marks (streams_parts res2)) = mset (pairs_marks (input_parts W2))"
    by (auto simp: sampling_shuffle)
  have "s1 = s2" using 1(1) 2(1) by simp
  then have "W1 = W2" using 1(2) 2(2) by simp
  then show ?thesis using 1(3) 2(3) by simp
qed

theorem runs_agree_on_marks_witness:
  "read (example_env\<lparr>random_shuffle := id\<rparr>)
       (example_executor [example_part ''a'' 10, example_part ''b'' 4]) [''k'']
       plain_query every_key every_key True 100 2
     = Some (Inr
         [ConcatBlockInputStream
            [MergeTreeBlockInputStream ''/b/'' 100 [''k''] (example_part ''b'' 4) [MarkRange 0 4]
               True None [],
             MergeTreeBlockInputStream ''/a/'' 100 [''k''] (example_part ''a'' 10) [MarkRange 0 3]
               True None []],
          MergeTreeBlockInputStream ''/a/'' 100 [''k''] (example_part ''a'' 10) [MarkRange 3 10]
            True None []])
   \<and> read (example_env\<lparr>random_shuffle := rev\<rparr>)
       (example_executor [example_part ''a'' 10, example_part ''b'' 4]) [''k'']
       plain_query every_key every_key True 100 2
     = Some (Inr
         [MergeTreeBlockInputStream ''/a/'' 100 [''k''] (example_part ''a'' 10) [MarkRange 0 7]
            True None [],
          ConcatBlockInputStream
            [MergeTreeBlockInputStream ''/a/'' 100 [''k''] (example_part ''a'' 10) [MarkRange 7 10]
               True None [],
             MergeTreeBlockInputStream ''/b/'' 100 [''k''] (example_part ''b'' 4) [MarkRange 0 4]
               True None []]])
   \<and> mset (pairs_marks
        [(example_part ''b'' 4, MarkRange 0 4), (example_part ''a'' 10, MarkRange 0 3),
         (example_part ''a'' 10, MarkRange 3 10)])
     = mset (pairs_marks
        [(example_part ''a'' 10, MarkRange 0 7), (example_part ''a'' 10, MarkRange 7 10),
         (example_part ''b'' 4, MarkRange 0 4)])"
proof -
  let ?ex = "example_executor [example_part ''a'' 10, example_part ''b'' 4]"
  let ?r1 = "[ConcatBlockInputStream
            [MergeTreeBlockInputStream ''/b/'' 100 [''k''] (example_part ''b'' 4) [MarkRange 0 4]
               True None [],
             MergeTreeBlockInputStream ''/a/'' 100 [''k''] (example_part ''a'' 10) [MarkRange 0 3]
               True None []],
          MergeTreeBlockInputStream ''/a/'' 100 [''k''] (example_part ''a'' 10) [MarkRange 3 10]
            True None []]"
  let ?r2 = "[MergeTreeBlockInputStream ''/a/'' 100 [''k''] (example_part ''a'' 10) [MarkRange 0 7]
            True None [],
          ConcatBlockInputStream
            [MergeTreeBlockInputStream ''/a/'' 100 [''k''] (example_part ''a'' 10) [MarkRange 7 10]
               True None [],
             MergeTreeBlockInputStream ''/b/'' 100 [''k''] (example_part ''b'' 4) [MarkRange 0 4]
               True None []]]"
  have 1: "read (example_env\<lparr>random_shuffle := id\<rparr>) ?ex [''k''] plain_query every_key
      every_key True 100 2 = Some (Inr ?r1)"
    by code_simp
  have 2: "read (example_env\<lparr>random_shuffle := rev\<rparr>) ?ex [''k''] plain_query every_key
      every_key True 100 2 = Some (Inr ?r2)"
    by code_simp
  from runs_agree_on_marks [OF 1 2] 1 2
  show ?thesis by (simp add: streams_parts_def)
qed


end
